theory Spec2Isabelle
  imports Main "HOL-Library.Code_Target_Nat"
begin

section \<open>The text buffer as a C string\<close>

text \<open>
  Both programs (\<^verbatim>\<open>src/tte.cpp\<close> and its later variant with \<^verbatim>\<open>struct Buffer\<close>)
  keep the text in a \<^verbatim>\<open>char\<close> array that ends with a NUL byte and walk it with a
  pointer or a \<^verbatim>\<open>size_t\<close> index. The array is a list of bytes here and a pointer
  is an index into it. The byte after the last list element is the terminator, so
  reading at or past the end of the list gives NUL; a NUL inside the list ends the C
  string early, as it does in C.
\<close>

definition byte_at :: "char list \<Rightarrow> nat \<Rightarrow> char" where
  "byte_at buf i = (if i < length buf then buf ! i else CHR 0x00)"

definition cstring :: "char list \<Rightarrow> char list" where
  "cstring buf = takeWhile (\<lambda>c. c \<noteq> CHR 0x00) buf"

definition strlen :: "char list \<Rightarrow> nat" where
  "strlen buf = length (cstring buf)"

definition slice :: "char list \<Rightarrow> nat \<Rightarrow> nat \<Rightarrow> char list" where
  "slice buf p q = take (q - p) (drop p buf)"

section \<open>Character classes and the parse helpers\<close>

text \<open>\<^verbatim>\<open>is_latin\<close> and \<^verbatim>\<open>is_digit\<close>, on the byte's code.\<close>

definition is_latin :: "char \<Rightarrow> bool" where
  "is_latin c = ((65 \<le> (of_char c :: nat) \<and> (of_char c :: nat) \<le> 90) \<or>
                 (97 \<le> (of_char c :: nat) \<and> (of_char c :: nat) \<le> 122))"

definition is_digit :: "char \<Rightarrow> bool" where
  "is_digit c = (48 \<le> (of_char c :: nat) \<and> (of_char c :: nat) \<le> 57)"

definition is_space :: "char \<Rightarrow> bool" where
  "is_space c = (c = CHR '' '' \<or> c = CHR 0x0A \<or> c = CHR 0x0D \<or> c = CHR 0x09)"

text \<open>
  Every helper takes the pointer and returns the advanced pointer together with the
  bytes it wrote to standard output, one \<^verbatim>\<open>write (1, p++, 1)\<close> per byte.
\<close>

function parse_space :: "char list \<Rightarrow> nat \<Rightarrow> nat \<times> char list" where
  "parse_space buf p =
     (if is_space (byte_at buf p)
      then (case parse_space buf (Suc p) of (q, w) \<Rightarrow> (q, byte_at buf p # w))
      else (p, []))"
  by pat_completeness auto
termination
  by (relation "measure (\<lambda>(buf, p). length buf - p)")
     (auto simp: byte_at_def is_space_def split: if_splits)

function parse_block_comment :: "char list \<Rightarrow> nat \<Rightarrow> nat \<times> char list" where
  "parse_block_comment buf p =
     (if byte_at buf p = CHR 0x00 then (p, [])
      else if byte_at buf p = CHR ''*'' \<and> byte_at buf (p + 1) = CHR ''/''
      then (p + 2, [byte_at buf p, byte_at buf (p + 1)])
      else (case parse_block_comment buf (Suc p) of (q, w) \<Rightarrow> (q, byte_at buf p # w)))"
  by pat_completeness auto
termination
  by (relation "measure (\<lambda>(buf, p). length buf - p)")
     (auto simp: byte_at_def split: if_splits)

function parse_inline_comment :: "char list \<Rightarrow> nat \<Rightarrow> nat \<times> char list" where
  "parse_inline_comment buf p =
     (if byte_at buf p \<noteq> CHR 0x00 \<and> byte_at buf p \<noteq> CHR 0x0A \<and> byte_at buf p \<noteq> CHR 0x0D
      then (case parse_inline_comment buf (Suc p) of (q, w) \<Rightarrow> (q, byte_at buf p # w))
      else (p, []))"
  by pat_completeness auto
termination
  by (relation "measure (\<lambda>(buf, p). length buf - p)")
     (auto simp: byte_at_def split: if_splits)

text \<open>
  \<^verbatim>\<open>parse_string_literal\<close> looks one byte back (\<^verbatim>\<open>p[-1]\<close>). Its only caller has
  stepped over the opening quote first, so \<open>p\<close> is at least 1 there.
\<close>

function parse_string_literal :: "char list \<Rightarrow> nat \<Rightarrow> nat \<times> char list" where
  "parse_string_literal buf p =
     (if byte_at buf p = CHR 0x00 then (p, [])
      else if byte_at buf p = CHR 0x22 \<and> byte_at buf (p - 1) \<noteq> CHR 0x5C
      then (Suc p, [byte_at buf p])
      else (case parse_string_literal buf (Suc p) of (q, w) \<Rightarrow> (q, byte_at buf p # w)))"
  by pat_completeness auto
termination
  by (relation "measure (\<lambda>(buf, p). length buf - p)")
     (auto simp: byte_at_def split: if_splits)

function parse_identifier :: "char list \<Rightarrow> nat \<Rightarrow> nat \<times> char list" where
  "parse_identifier buf p =
     (if is_latin (byte_at buf p)
      then (case parse_identifier buf (Suc p) of (q, w) \<Rightarrow> (q, byte_at buf p # w))
      else (p, []))"
  by pat_completeness auto
termination
  by (relation "measure (\<lambda>(buf, p). length buf - p)")
     (auto simp: byte_at_def is_latin_def split: if_splits)

function parse_num :: "char list \<Rightarrow> nat \<Rightarrow> nat \<times> char list" where
  "parse_num buf p =
     (if is_digit (byte_at buf p)
      then (case parse_num buf (Suc p) of (q, w) \<Rightarrow> (q, byte_at buf p # w))
      else (p, []))"
  by pat_completeness auto
termination
  by (relation "measure (\<lambda>(buf, p). length buf - p)")
     (auto simp: byte_at_def is_digit_def split: if_splits)

declare parse_space.simps [simp del]
declare parse_block_comment.simps [simp del]
declare parse_inline_comment.simps [simp del]
declare parse_string_literal.simps [simp del]
declare parse_identifier.simps [simp del]
declare parse_num.simps [simp del]

section \<open>The highlighting scan\<close>

text \<open>
  What the programs do to the outside world is a list of events, oldest first. A
  \<open>Span\<close> is the text one branch of the scan copies from the buffer to standard
  output: the branch, the pointer where the branch started, and the bytes written.
  \<open>Out\<close> is any other write to standard output (escape sequences, echoed keys),
  \<open>Diag\<close> the \<^verbatim>\<open>printf ("\\nError: Unable to parse %d ('%c')\\n", ...)\<close> of the
  scan, \<open>Err\<close> a write to standard error, and \<open>TcGetAttr\<close>, \<open>TcSetAttr\<close> the
  calls that read and set the terminal attributes.
\<close>

datatype span_kind =
  Whitespace | BlockComment | InlineComment | StringLiteral
  | Punctuation | Identifier | Number | SingleByte

datatype tc_attrs = RawMode | OriginalMode

datatype event =
  Span span_kind nat "char list"
  | Out "char list"
  | Diag char
  | Err "char list"
  | TcGetAttr
  | TcSetAttr tc_attrs

definition esc :: "char list \<Rightarrow> char list" where
  "esc s = CHR 0x1B # s"

definition is_punct :: "char \<Rightarrow> bool" where
  "is_punct c = (c = CHR ''('' \<or> c = CHR '')'' \<or> c = CHR ''{'' \<or> c = CHR ''}'' \<or>
                 c = CHR ''['' \<or> c = CHR '']'' \<or> c = CHR ''='' \<or> c = CHR '','' \<or>
                 c = CHR '';'' \<or> c = CHR ''*'' \<or> c = CHR ''&'')"

text \<open>
  The chain of tests that both scan loops run on the byte under the pointer
  (\<^verbatim>\<open>main\<close> of \<^verbatim>\<open>tte.cpp\<close>, \<^verbatim>\<open>load_file\<close> of the later variant; the two
  chains are the same text). The result is the advanced pointer and the events of the
  branch taken, or \<open>None\<close> when the chain falls through to its final \<^verbatim>\<open>else\<close>,
  where the two loops differ. The block-comment escape is written with length 5, so
  the literal's terminating NUL goes out with it.
\<close>

definition scan_branch :: "char list \<Rightarrow> nat \<Rightarrow> (nat \<times> event list) option" where
  "scan_branch buf p =
     (let c = byte_at buf p in
      if c = CHR ''/'' then
        (if byte_at buf (p + 1) = CHR ''*'' then
           (case parse_block_comment buf p of (q, w) \<Rightarrow>
              Some (q, [Out (esc (''[6m'' @ [CHR 0x00])), Span BlockComment p w, Out (esc ''[m'')]))
         else if byte_at buf (p + 1) = CHR ''/'' then
           (case parse_inline_comment buf p of (q, w) \<Rightarrow>
              Some (q, [Out (esc ''[30m''), Span InlineComment p w, Out (esc ''[m'')]))
         else Some (p + 1, [Span SingleByte p [c]]))
      else if c = CHR 0x22 then
        (case parse_string_literal buf (p + 1) of (q, w) \<Rightarrow>
           Some (q, [Out (esc ''[1;33m''), Span StringLiteral p (c # w), Out (esc ''[m'')]))
      else if is_punct c then Some (p + 1, [Span Punctuation p [c]])
      else if is_latin c then
        (case parse_identifier buf p of (q, w) \<Rightarrow>
           Some (q, [Out (esc ''[1;34m''), Span Identifier p w, Out (esc ''[m'')]))
      else if is_digit c then
        (case parse_num buf p of (q, w) \<Rightarrow> Some (q, [Span Number p w]))
      else None)"

lemma parse_space_ge: "p \<le> fst (parse_space buf p)"
proof (induction buf p rule: parse_space.induct)
  case (1 buf p)
  then show ?case
    by (subst parse_space.simps) (auto split: prod.splits)
qed

lemma parse_block_comment_ge: "p \<le> fst (parse_block_comment buf p)"
proof (induction buf p rule: parse_block_comment.induct)
  case (1 buf p)
  then show ?case
    by (subst parse_block_comment.simps) (auto split: prod.splits)
qed

lemma parse_inline_comment_ge: "p \<le> fst (parse_inline_comment buf p)"
proof (induction buf p rule: parse_inline_comment.induct)
  case (1 buf p)
  then show ?case
    by (subst parse_inline_comment.simps) (auto split: prod.splits)
qed

lemma parse_string_literal_ge: "p \<le> fst (parse_string_literal buf p)"
proof (induction buf p rule: parse_string_literal.induct)
  case (1 buf p)
  then show ?case
    by (subst parse_string_literal.simps) (auto split: prod.splits)
qed

lemma parse_identifier_ge: "p \<le> fst (parse_identifier buf p)"
proof (induction buf p rule: parse_identifier.induct)
  case (1 buf p)
  then show ?case
    by (subst parse_identifier.simps) (auto split: prod.splits)
qed

lemma parse_num_ge: "p \<le> fst (parse_num buf p)"
proof (induction buf p rule: parse_num.induct)
  case (1 buf p)
  then show ?case
    by (subst parse_num.simps) (auto split: prod.splits)
qed

text \<open>
  The scan loop, \<^verbatim>\<open>for (char *buffer_p = parse_space (buffer); *buffer_p; )\<close>. Each
  round runs the chain above and then \<^verbatim>\<open>parse_space\<close>. The two programs differ in
  the final \<^verbatim>\<open>else\<close> of the chain, reached at a byte of no lexical class:

  \<^item> \<^verbatim>\<open>main\<close> of \<^verbatim>\<open>tte.cpp\<close> prints the diagnostic and returns 1
    (\<open>tte_scan_loop\<close>, which says how the scan ended);
  \<^item> \<^verbatim>\<open>load_file\<close> of the later variant prints the diagnostic and goes on to
    \<^verbatim>\<open>buffer_p = parse_space (buffer_p)\<close> with the pointer where it was
    (\<open>load_file_loop\<close>). That loop need not end, so its result is an option:
    \<open>None\<close> is a scan that never returns.
\<close>

datatype scan_end = ReachedNul | Returned1

lemma scan_branch_gt: "scan_branch buf p = Some (q, evs) \<Longrightarrow> p < q"
  using parse_block_comment_ge[of "Suc p" buf] parse_inline_comment_ge[of "Suc p" buf]
    parse_string_literal_ge[of "Suc p" buf] parse_identifier_ge[of "Suc p" buf]
    parse_num_ge[of "Suc p" buf]
  unfolding scan_branch_def Let_def
  by (subst (asm) parse_block_comment.simps, subst (asm) parse_inline_comment.simps,
      subst (asm) parse_identifier.simps, subst (asm) parse_num.simps)
     (auto split: if_splits prod.splits)

function tte_scan_loop :: "char list \<Rightarrow> nat \<Rightarrow> event list \<times> scan_end" where
  "tte_scan_loop buf p =
     (if byte_at buf p = CHR 0x00 then ([], ReachedNul)
      else (case scan_branch buf p of
              None \<Rightarrow> ([Diag (byte_at buf p)], Returned1)
            | Some (q, evs) \<Rightarrow>
                (case parse_space buf q of (r, ws) \<Rightarrow>
                   (case tte_scan_loop buf r of (rest, st) \<Rightarrow>
                      (evs @ Span Whitespace q ws # rest, st)))))"
  by pat_completeness auto
termination
proof (relation "measure (\<lambda>(buf, p). length buf - p)", goal_cases)
  case 1
  show ?case by simp
next
  case (2 buf p x2 q evs r ws)
  have "p < q"
    using 2 scan_branch_gt[of buf p q evs] by auto
  moreover have "q \<le> r"
    using parse_space_ge[of q buf] 2 by (metis fst_conv)
  moreover have "p < length buf"
    using 2(1) by (auto simp: byte_at_def split: if_splits)
  ultimately show ?case by simp
qed

partial_function (option) load_file_loop :: "char list \<Rightarrow> nat \<Rightarrow> event list option" where
  "load_file_loop buf p =
     (if byte_at buf p = CHR 0x00 then Some []
      else (case scan_branch buf p of
              None \<Rightarrow>
                (case parse_space buf p of (r, ws) \<Rightarrow>
                   Option.bind (load_file_loop buf r)
                     (\<lambda>rest. Some (Diag (byte_at buf p) # Span Whitespace p ws # rest)))
            | Some (q, evs) \<Rightarrow>
                (case parse_space buf q of (r, ws) \<Rightarrow>
                   Option.bind (load_file_loop buf r)
                     (\<lambda>rest. Some (evs @ Span Whitespace q ws # rest)))))"

declare tte_scan_loop.simps [simp del]
declare load_file_loop.simps [code]

text \<open>The whole scan: the \<^verbatim>\<open>parse_space\<close> of the loop header, then the loop.\<close>

definition tte_scan :: "char list \<Rightarrow> event list \<times> scan_end" where
  "tte_scan buf =
     (case parse_space buf 0 of (p, ws) \<Rightarrow>
        (case tte_scan_loop buf p of (rest, st) \<Rightarrow> (Span Whitespace 0 ws # rest, st)))"

definition load_file_scan :: "char list \<Rightarrow> event list option" where
  "load_file_scan buf =
     (case parse_space buf 0 of (p, ws) \<Rightarrow>
        Option.bind (load_file_loop buf p) (\<lambda>rest. Some (Span Whitespace 0 ws # rest)))"

text \<open>
  What a list of events says about the buffer: \<open>span_text\<close> puts the texts of its
  spans together in order; \<open>contiguous p\<close> holds when the first span starts at
  \<open>p\<close> and every span starts where the one before it ended, so that there is
  neither a gap nor an overlap; \<open>covers buf p q w\<close> says that \<open>w\<close> is the text of
  the buffer from \<open>p\<close> up to \<open>q\<close>, within the C string.
\<close>

fun span_text :: "event list \<Rightarrow> char list" where
  "span_text [] = []"
| "span_text (Span k s t # es) = t @ span_text es"
| "span_text (e # es) = span_text es"

fun contiguous :: "nat \<Rightarrow> event list \<Rightarrow> bool" where
  "contiguous p [] = True"
| "contiguous p (Span k s t # es) = (s = p \<and> contiguous (p + length t) es)"
| "contiguous p (e # es) = contiguous p es"

definition covers :: "char list \<Rightarrow> nat \<Rightarrow> nat \<Rightarrow> char list \<Rightarrow> bool" where
  "covers buf p q w = (p \<le> q \<and> q \<le> strlen buf \<and> w = slice (cstring buf) p q)"

lemma strlen_le_length: "strlen buf \<le> length buf"
  by (simp add: strlen_def cstring_def length_takeWhile_le)

lemma byte_at_cstring: "p < strlen buf \<Longrightarrow> byte_at buf p = cstring buf ! p"
  using strlen_le_length[of buf]
  by (simp add: byte_at_def strlen_def cstring_def takeWhile_nth)

lemma byte_at_strlen: "byte_at buf (strlen buf) = CHR 0x00"
  using nth_length_takeWhile[of "\<lambda>c. c \<noteq> CHR 0x00" buf]
  by (auto simp: byte_at_def strlen_def cstring_def)

lemma byte_at_in_string: "p \<le> strlen buf \<Longrightarrow> byte_at buf p \<noteq> CHR 0x00 \<Longrightarrow> p < strlen buf"
  using byte_at_strlen[of buf] by (cases "p = strlen buf") auto

lemma covers_refl: "p \<le> strlen buf \<Longrightarrow> covers buf p p []"
  by (simp add: covers_def slice_def)

lemma covers_step:
  assumes "p < strlen buf" and "covers buf (Suc p) q w"
  shows "covers buf p q (byte_at buf p # w)"
proof -
  have "p < length (cstring buf)" using assms(1) by (simp add: strlen_def)
  then have "drop p (cstring buf) = cstring buf ! p # drop (Suc p) (cstring buf)"
    by (simp add: Cons_nth_drop_Suc)
  moreover have "q - p = Suc (q - Suc p)" using assms(2) by (auto simp: covers_def)
  ultimately show ?thesis
    using assms by (auto simp: covers_def slice_def byte_at_cstring)
qed

lemma slice_append:
  assumes "p \<le> q" and "q \<le> r"
  shows "slice s p q @ slice s q r = slice s p r"
proof -
  have a: "r - p = (q - p) + (r - q)" using assms by arith
  have b: "drop q s = drop (q - p) (drop p s)" using assms by simp
  show ?thesis
    unfolding slice_def a b by (simp only: take_add)
qed

lemma covers_trans: "covers buf p q w \<Longrightarrow> covers buf q r v \<Longrightarrow> covers buf p r (w @ v)"
  by (simp add: covers_def slice_append)

lemma parse_space_covers:
  "p \<le> strlen buf \<Longrightarrow> covers buf p (fst (parse_space buf p)) (snd (parse_space buf p))"
proof (induction buf p rule: parse_space.induct)
  case (1 buf p)
  show ?case
  proof (cases "is_space (byte_at buf p)")
    case True
    then have "byte_at buf p \<noteq> CHR 0x00" by (auto simp: is_space_def)
    then have lt: "p < strlen buf" using 1(2) by (rule byte_at_in_string[rotated])
    then have "covers buf (Suc p) (fst (parse_space buf (Suc p))) (snd (parse_space buf (Suc p)))"
      using 1(1) True by simp
    then show ?thesis
      using True lt by (subst (1 2) parse_space.simps) (auto simp add: covers_step split: prod.splits)
  next
    case False
    then show ?thesis
      using 1(2) by (subst (1 2) parse_space.simps) (simp add: covers_refl)
  qed
qed

lemma parse_identifier_covers:
  "p \<le> strlen buf \<Longrightarrow> covers buf p (fst (parse_identifier buf p)) (snd (parse_identifier buf p))"
proof (induction buf p rule: parse_identifier.induct)
  case (1 buf p)
  show ?case
  proof (cases "is_latin (byte_at buf p)")
    case True
    then have "byte_at buf p \<noteq> CHR 0x00" by (auto simp: is_latin_def)
    then have lt: "p < strlen buf" using 1(2) by (rule byte_at_in_string[rotated])
    then have "covers buf (Suc p) (fst (parse_identifier buf (Suc p))) (snd (parse_identifier buf (Suc p)))"
      using 1(1) True by simp
    then show ?thesis
      using True lt by (subst (1 2) parse_identifier.simps) (auto simp add: covers_step split: prod.splits)
  next
    case False
    then show ?thesis
      using 1(2) by (subst (1 2) parse_identifier.simps) (simp add: covers_refl)
  qed
qed

lemma parse_num_covers:
  "p \<le> strlen buf \<Longrightarrow> covers buf p (fst (parse_num buf p)) (snd (parse_num buf p))"
proof (induction buf p rule: parse_num.induct)
  case (1 buf p)
  show ?case
  proof (cases "is_digit (byte_at buf p)")
    case True
    then have "byte_at buf p \<noteq> CHR 0x00" by (auto simp: is_digit_def)
    then have lt: "p < strlen buf" using 1(2) by (rule byte_at_in_string[rotated])
    then have "covers buf (Suc p) (fst (parse_num buf (Suc p))) (snd (parse_num buf (Suc p)))"
      using 1(1) True by simp
    then show ?thesis
      using True lt by (subst (1 2) parse_num.simps) (auto simp add: covers_step split: prod.splits)
  next
    case False
    then show ?thesis
      using 1(2) by (subst (1 2) parse_num.simps) (simp add: covers_refl)
  qed
qed

lemma parse_inline_comment_covers:
  "p \<le> strlen buf \<Longrightarrow>
   covers buf p (fst (parse_inline_comment buf p)) (snd (parse_inline_comment buf p))"
proof (induction buf p rule: parse_inline_comment.induct)
  case (1 buf p)
  let ?go = "byte_at buf p \<noteq> CHR 0x00 \<and> byte_at buf p \<noteq> CHR 0x0A \<and> byte_at buf p \<noteq> CHR 0x0D"
  show ?case
  proof (cases ?go)
    case True
    then have lt: "p < strlen buf" using 1(2) byte_at_in_string by blast
    then have "covers buf (Suc p) (fst (parse_inline_comment buf (Suc p)))
                 (snd (parse_inline_comment buf (Suc p)))"
      using 1(1) True by simp
    then show ?thesis
      using True lt
      by (subst (1 2) parse_inline_comment.simps) (auto simp add: covers_step split: prod.splits)
  next
    case False
    then show ?thesis
      using 1(2) by (subst (1 2) parse_inline_comment.simps) (auto simp add: covers_refl)
  qed
qed

lemma covers_two:
  assumes "p \<le> strlen buf" and "byte_at buf p \<noteq> CHR 0x00" and "byte_at buf (Suc p) \<noteq> CHR 0x00"
  shows "covers buf p (p + 2) [byte_at buf p, byte_at buf (Suc p)]"
proof -
  have a: "p < strlen buf" using assms(1,2) by (rule byte_at_in_string)
  then have b: "Suc p < strlen buf" using assms(3) byte_at_in_string[of "Suc p" buf] by simp
  have "covers buf (Suc (Suc p)) (Suc (Suc p)) []" using b by (simp add: covers_refl)
  then have "covers buf (Suc p) (Suc (Suc p)) [byte_at buf (Suc p)]" using b by (rule covers_step[rotated])
  then have "covers buf p (Suc (Suc p)) [byte_at buf p, byte_at buf (Suc p)]" using a by (rule covers_step[rotated])
  then show ?thesis by simp
qed

lemma parse_block_comment_covers:
  "p \<le> strlen buf \<Longrightarrow>
   covers buf p (fst (parse_block_comment buf p)) (snd (parse_block_comment buf p))"
proof (induction buf p rule: parse_block_comment.induct)
  case (1 buf p)
  consider (nul) "byte_at buf p = CHR 0x00"
    | (close) "byte_at buf p \<noteq> CHR 0x00" "byte_at buf p = CHR ''*'' \<and> byte_at buf (p + 1) = CHR ''/''"
    | (step) "byte_at buf p \<noteq> CHR 0x00" "\<not> (byte_at buf p = CHR ''*'' \<and> byte_at buf (p + 1) = CHR ''/'')"
    by blast
  then show ?case
  proof cases
    case nul
    then show ?thesis
      using 1(2) by (subst (1 2) parse_block_comment.simps) (simp add: covers_refl)
  next
    case close
    then have "covers buf p (p + 2) [byte_at buf p, byte_at buf (Suc p)]"
      using 1(2) by (intro covers_two) auto
    then show ?thesis
      using close by (subst (1 2) parse_block_comment.simps) simp
  next
    case step
    then have lt: "p < strlen buf" using 1(2) byte_at_in_string by blast
    then have "covers buf (Suc p) (fst (parse_block_comment buf (Suc p)))
                 (snd (parse_block_comment buf (Suc p)))"
      using 1(1) step by simp
    then show ?thesis
      using step lt
      by (subst (1 2) parse_block_comment.simps) (auto simp add: covers_step split: prod.splits)
  qed
qed

lemma parse_string_literal_covers:
  "p \<le> strlen buf \<Longrightarrow>
   covers buf p (fst (parse_string_literal buf p)) (snd (parse_string_literal buf p))"
proof (induction buf p rule: parse_string_literal.induct)
  case (1 buf p)
  consider (nul) "byte_at buf p = CHR 0x00"
    | (close) "byte_at buf p \<noteq> CHR 0x00" "byte_at buf p = CHR 0x22 \<and> byte_at buf (p - 1) \<noteq> CHR 0x5C"
    | (step) "byte_at buf p \<noteq> CHR 0x00" "\<not> (byte_at buf p = CHR 0x22 \<and> byte_at buf (p - 1) \<noteq> CHR 0x5C)"
    by blast
  then show ?case
  proof cases
    case nul
    then show ?thesis
      using 1(2) by (subst (1 2) parse_string_literal.simps) (simp add: covers_refl)
  next
    case close
    then have lt: "p < strlen buf" using 1(2) byte_at_in_string by blast
    then have "covers buf p (Suc p) [byte_at buf p]"
      by (intro covers_step) (simp_all add: covers_refl)
    then show ?thesis
      using close by (subst (1 2) parse_string_literal.simps) simp
  next
    case step
    then have lt: "p < strlen buf" using 1(2) byte_at_in_string by blast
    then have "covers buf (Suc p) (fst (parse_string_literal buf (Suc p)))
                 (snd (parse_string_literal buf (Suc p)))"
      using 1(1) step by simp
    then show ?thesis
      using step lt
      by (subst (1 2) parse_string_literal.simps) (auto simp add: covers_step split: prod.splits)
  qed
qed

lemma byte_at_nonzero: "p < strlen buf \<Longrightarrow> byte_at buf p \<noteq> CHR 0x00"
proof -
  assume a: "p < strlen buf"
  then have "cstring buf ! p \<in> set (takeWhile (\<lambda>c. c \<noteq> CHR 0x00) buf)"
    by (simp add: strlen_def cstring_def)
  then show ?thesis
    using a by (auto simp: byte_at_cstring dest: set_takeWhileD)
qed

lemma covers_length: "covers buf p q w \<Longrightarrow> p + length w = q"
  by (auto simp: covers_def slice_def strlen_def)

lemma covers_single: "p < strlen buf \<Longrightarrow> covers buf p (Suc p) [byte_at buf p]"
  by (intro covers_step) (simp_all add: covers_refl)

lemma contiguous_append:
  "contiguous p (xs @ ys) = (contiguous p xs \<and> contiguous (p + length (span_text xs)) ys)"
proof (induction xs arbitrary: p)
  case Nil
  show ?case by simp
next
  case (Cons e xs)
  then show ?case by (cases e) (auto simp: add.assoc)
qed

lemma span_text_append: "span_text (xs @ ys) = span_text xs @ span_text ys"
proof (induction xs)
  case Nil
  show ?case by simp
next
  case (Cons e xs)
  then show ?case by (cases e) auto
qed

lemma scan_branch_covers:
  assumes "p \<le> strlen buf" and "byte_at buf p \<noteq> CHR 0x00"
    and "scan_branch buf p = Some (q, evs)"
  shows "covers buf p q (span_text evs) \<and> contiguous p evs"
proof -
  have lt: "p < strlen buf" using assms(1,2) by (rule byte_at_in_string)
  then have le: "Suc p \<le> strlen buf" by simp
  note single = covers_single[OF lt]
  note bc = parse_block_comment_covers[OF assms(1)]
  note ic = parse_inline_comment_covers[OF assms(1)]
  note idc = parse_identifier_covers[OF assms(1)]
  note nc = parse_num_covers[OF assms(1)]
  have sl: "covers buf p (fst (parse_string_literal buf (Suc p)))
              (byte_at buf p # snd (parse_string_literal buf (Suc p)))"
    using lt parse_string_literal_covers[OF le] by (rule covers_step)
  show ?thesis
    using assms(3) single bc ic idc nc sl
    by (auto simp: scan_branch_def Let_def split: if_splits prod.splits)
qed

lemma tte_scan_loop_covers:
  "p \<le> strlen buf \<Longrightarrow>
   covers buf p (p + length (span_text (fst (tte_scan_loop buf p))))
     (span_text (fst (tte_scan_loop buf p))) \<and>
   contiguous p (fst (tte_scan_loop buf p)) \<and>
   (snd (tte_scan_loop buf p) = ReachedNul \<longrightarrow>
      p + length (span_text (fst (tte_scan_loop buf p))) = strlen buf)"
proof (induction buf p rule: tte_scan_loop.induct)
  case (1 buf p)
  show ?case
  proof (cases "byte_at buf p = CHR 0x00")
    case True
    then have "p = strlen buf"
      using 1(2) byte_at_nonzero[of p buf] by (cases "p = strlen buf") auto
    then show ?thesis
      using True by (subst (1 2 3 4 5) tte_scan_loop.simps) (simp add: covers_refl)
  next
    case nz: False
    show ?thesis
    proof (cases "scan_branch buf p")
      case None
      then show ?thesis
        using nz 1(2) by (subst (1 2 3 4 5) tte_scan_loop.simps) (simp add: covers_refl)
    next
      case (Some x2)
      obtain q evs where x2: "x2 = (q, evs)" by (cases x2)
      obtain r ws where ps: "parse_space buf q = (r, ws)" by (cases "parse_space buf q")
      obtain rest st where rec: "tte_scan_loop buf r = (rest, st)" by (cases "tte_scan_loop buf r")
      have b: "covers buf p q (span_text evs)" "contiguous p evs"
        using scan_branch_covers[OF 1(2) nz] Some x2 by auto
      then have qle: "q \<le> strlen buf" by (simp add: covers_def)
      have s: "covers buf q r ws"
        using parse_space_covers[OF qle] ps by simp
      then have rle: "r \<le> strlen buf" by (simp add: covers_def)
      have ih: "covers buf r (r + length (span_text rest)) (span_text rest)"
        "contiguous r rest" "st = ReachedNul \<longrightarrow> r + length (span_text rest) = strlen buf"
        using 1(1)[OF nz Some x2[symmetric] ps[symmetric] rle] rec by auto
      have eq: "tte_scan_loop buf p = (evs @ Span Whitespace q ws # rest, st)"
        using nz Some x2 ps rec by (subst tte_scan_loop.simps) simp
      define e where "e = r + length (span_text rest)"
      define out where "out = evs @ Span Whitespace q ws # rest"
      have texts: "span_text out = span_text evs @ ws @ span_text rest"
        by (simp add: span_text_append out_def)
      have all: "covers buf p e (span_text out)"
        using covers_trans[OF b(1) covers_trans[OF s ih(1)]] by (simp add: texts e_def)
      have tot: "p + length (span_text out) = e"
        using all by (rule covers_length)
      have cont: "contiguous p out"
        using b(2) ih(2) covers_length[OF b(1)] covers_length[OF s]
        by (simp add: contiguous_append out_def)
      have fin: "st = ReachedNul \<longrightarrow> e = strlen buf"
        using ih(3) by (simp add: e_def)
      have eq': "tte_scan_loop buf p = (out, st)"
        using eq by (simp add: out_def)
      show ?thesis
        unfolding eq' fst_conv snd_conv tot using all cont fin by blast
    qed
  qed
qed

lemma parse_space_stops: "\<not> is_space (byte_at buf (fst (parse_space buf p)))"
proof (induction buf p rule: parse_space.induct)
  case (1 buf p)
  then show ?case
    by (subst parse_space.simps) (auto split: prod.splits)
qed

lemma parse_space_idle: "\<not> is_space (byte_at buf p) \<Longrightarrow> parse_space buf p = (p, [])"
  by (subst parse_space.simps) simp

lemma load_file_loop_stuck:
  assumes "byte_at buf p \<noteq> CHR 0x00" and "scan_branch buf p = None"
    and "\<not> is_space (byte_at buf p)"
  shows "load_file_loop buf p = None"
proof (cases "load_file_loop buf p")
  case None
  then show ?thesis .
next
  case (Some l)
  have "load_file_loop buf p =
          Option.bind (load_file_loop buf p)
            (\<lambda>rest. Some (Diag (byte_at buf p) # Span Whitespace p [] # rest))"
    using assms by (subst load_file_loop.simps) (simp add: parse_space_idle)
  then have "l = Diag (byte_at buf p) # Span Whitespace p [] # l"
    using Some by simp
  then have "length l = Suc (Suc (length l))"
    by (metis length_Cons)
  then show ?thesis by simp
qed

lemma load_file_loop_done:
  "snd (tte_scan_loop buf p) = ReachedNul \<Longrightarrow>
   load_file_loop buf p = Some (fst (tte_scan_loop buf p))"
proof (induction buf p rule: tte_scan_loop.induct)
  case (1 buf p)
  show ?case
  proof (cases "byte_at buf p = CHR 0x00")
    case True
    then show ?thesis
      by (subst load_file_loop.simps, subst tte_scan_loop.simps) simp
  next
    case nz: False
    show ?thesis
    proof (cases "scan_branch buf p")
      case None
      then have "snd (tte_scan_loop buf p) = Returned1"
        using nz by (subst tte_scan_loop.simps) simp
      then show ?thesis using 1(2) by simp
    next
      case (Some x2)
      obtain q evs where x2: "x2 = (q, evs)" by (cases x2)
      obtain r ws where ps: "parse_space buf q = (r, ws)" by (cases "parse_space buf q")
      obtain rest st where rec: "tte_scan_loop buf r = (rest, st)" by (cases "tte_scan_loop buf r")
      have eq: "tte_scan_loop buf p = (evs @ Span Whitespace q ws # rest, st)"
        using nz Some x2 ps rec by (subst tte_scan_loop.simps) simp
      then have "st = ReachedNul" using 1(2) by simp
      then have "load_file_loop buf r = Some rest"
        using 1(1)[OF nz Some x2[symmetric] ps[symmetric]] rec by simp
      then show ?thesis
        unfolding eq using nz Some x2 ps by (subst load_file_loop.simps) simp
    qed
  qed
qed

lemma load_file_loop_hangs:
  "snd (tte_scan_loop buf p) = Returned1 \<Longrightarrow> \<not> is_space (byte_at buf p) \<Longrightarrow>
   load_file_loop buf p = None"
proof (induction buf p rule: tte_scan_loop.induct)
  case (1 buf p)
  show ?case
  proof (cases "byte_at buf p = CHR 0x00")
    case True
    then have "snd (tte_scan_loop buf p) = ReachedNul"
      by (subst tte_scan_loop.simps) simp
    then show ?thesis using 1(2) by simp
  next
    case nz: False
    show ?thesis
    proof (cases "scan_branch buf p")
      case None
      show ?thesis using nz None 1(3) by (rule load_file_loop_stuck)
    next
      case (Some x2)
      obtain q evs where x2: "x2 = (q, evs)" by (cases x2)
      obtain r ws where ps: "parse_space buf q = (r, ws)" by (cases "parse_space buf q")
      obtain rest st where rec: "tte_scan_loop buf r = (rest, st)" by (cases "tte_scan_loop buf r")
      have eq: "tte_scan_loop buf p = (evs @ Span Whitespace q ws # rest, st)"
        using nz Some x2 ps rec by (subst tte_scan_loop.simps) simp
      then have "st = Returned1" using 1(2) by simp
      moreover have "\<not> is_space (byte_at buf r)"
        using parse_space_stops[of buf q] ps by simp
      ultimately have "load_file_loop buf r = None"
        using 1(1)[OF nz Some x2[symmetric] ps[symmetric]] rec by simp
      then show ?thesis
        using nz Some x2 ps by (subst load_file_loop.simps) simp
    qed
  qed
qed

lemma load_file_scan_eq:
  "load_file_scan buf =
     (if snd (tte_scan buf) = ReachedNul then Some (fst (tte_scan buf)) else None)"
proof -
  obtain p ws where ps: "parse_space buf 0 = (p, ws)" by (cases "parse_space buf 0")
  obtain rest st where rec: "tte_scan_loop buf p = (rest, st)" by (cases "tte_scan_loop buf p")
  have ns: "\<not> is_space (byte_at buf p)"
    using parse_space_stops[of buf 0] ps by simp
  show ?thesis
  proof (cases st)
    case ReachedNul
    then show ?thesis
      using load_file_loop_done[of buf p] ps rec by (simp add: load_file_scan_def tte_scan_def)
  next
    case Returned1
    then show ?thesis
      using load_file_loop_hangs[of buf p] ns ps rec by (simp add: load_file_scan_def tte_scan_def)
  qed
qed

lemma tte_scan_covers:
  "contiguous 0 (fst (tte_scan buf)) \<and>
   span_text (fst (tte_scan buf)) = take (length (span_text (fst (tte_scan buf)))) (cstring buf) \<and>
   (snd (tte_scan buf) = ReachedNul \<longrightarrow> span_text (fst (tte_scan buf)) = cstring buf)"
proof -
  obtain p ws where ps: "parse_space buf 0 = (p, ws)" by (cases "parse_space buf 0")
  obtain rest st where rec: "tte_scan_loop buf p = (rest, st)" by (cases "tte_scan_loop buf p")
  have s: "covers buf 0 p ws"
    using parse_space_covers[of 0 buf] ps by simp
  then have ple: "p \<le> strlen buf" by (simp add: covers_def)
  define e where "e = p + length (span_text rest)"
  have l: "covers buf p e (span_text rest)" "contiguous p rest" "st = ReachedNul \<longrightarrow> e = strlen buf"
    using tte_scan_loop_covers[OF ple] rec by (simp_all add: e_def)
  have all: "covers buf 0 e (ws @ span_text rest)"
    using covers_trans[OF s l(1)] .
  have eq: "tte_scan buf = (Span Whitespace 0 ws # rest, st)"
    using ps rec by (simp add: tte_scan_def)
  have len: "length (ws @ span_text rest) = e"
    using covers_length[OF all] by simp
  have t: "ws @ span_text rest = take e (cstring buf)"
    using all by (simp add: covers_def slice_def)
  have "st = ReachedNul \<longrightarrow> ws @ span_text rest = cstring buf"
    using t l(3) by (simp add: strlen_def)
  moreover have "contiguous 0 (Span Whitespace 0 ws # rest)"
    using l(2) covers_length[OF s] by simp
  ultimately show ?thesis
    unfolding eq fst_conv snd_conv using t len by simp
qed

section \<open>Cursor movement\<close>

text \<open>
  The cursor variables are \<^verbatim>\<open>size_t\<close>, taken as 64 bits wide. They are natural
  numbers here, and the one operation that can wrap around in a run of the programs is
  written out: the subtraction in the Up handler (\<open>sz_sub\<close>), where the later
  variant can have the column above the offset. Indices that only count up through
  the buffer stay below its length and are not reduced.
\<close>

definition size_modulus :: nat where
  "size_modulus = 2 ^ 64"

definition sz_sub :: "nat \<Rightarrow> nat \<Rightarrow> nat" where
  "sz_sub a b = (a + (size_modulus - b mod size_modulus)) mod size_modulus"

text \<open>
  \<^verbatim>\<open>u64_to_str\<close> writes the digits lowest first (\<open>u64_digits\<close>, its first loop)
  and reverses them in place; \<^verbatim>\<open>s64_to_str\<close> is called with a \<^verbatim>\<open>size_t\<close>, which
  it reads as signed.
\<close>

function u64_digits :: "nat \<Rightarrow> char list" where
  "u64_digits num =
     (if num > 0 then char_of (num - (num div 10) * 10 + 48) # u64_digits (num div 10)
      else [])"
  by pat_completeness auto
termination
  by (relation "measure id") auto

declare u64_digits.simps [simp del]

definition u64_to_str :: "nat \<Rightarrow> char list" where
  "u64_to_str num = (if num = 0 then ''0'' else rev (u64_digits num))"

definition s64_to_str :: "nat \<Rightarrow> char list" where
  "s64_to_str num =
     (if num < 2 ^ 63 then u64_to_str num
      else CHR ''-'' # u64_to_str (size_modulus - num))"

text \<open>
  The code for Up and Down is the same in both programs but for the names
  (\<^verbatim>\<open>buffer_pos\<close>, \<^verbatim>\<open>buffer_line_pos\<close> in \<^verbatim>\<open>tte.cpp\<close>; \<^verbatim>\<open>y\<close>, \<^verbatim>\<open>x\<close> and
  \<^verbatim>\<open>buffer.data\<close> in the later variant). A cursor is the pair of offset and
  column. \<open>up_scan\<close> is the \<^verbatim>\<open>while\<close> loop of Up, which walks back to the start
  of the line and counts its length; \<open>down_find\<close> is the \<^verbatim>\<open>while\<close> loop of Down,
  which walks to the end of the current line; \<open>down_clamp\<close> is its \<^verbatim>\<open>for\<close> loop,
  which walks into the next line and cuts the column when the line ends first.
  \<open>key_up\<close> and \<open>key_down\<close> return the new cursor and the escape sequences
  written.
\<close>

function up_scan :: "char list \<Rightarrow> nat \<Rightarrow> nat \<Rightarrow> nat \<times> nat" where
  "up_scan buf pos line_len =
     (if pos > 0 \<and> byte_at buf (pos - 1) \<noteq> CHR 0x0A
      then up_scan buf (pos - 1) (line_len + 1)
      else (pos, line_len))"
  by pat_completeness auto
termination
  by (relation "measure (\<lambda>(buf, pos, line_len). pos)") auto

function down_find :: "char list \<Rightarrow> nat \<Rightarrow> nat" where
  "down_find buf pos =
     (if byte_at buf pos \<noteq> CHR 0x00 \<and> byte_at buf pos \<noteq> CHR 0x0A
      then down_find buf (pos + 1)
      else pos)"
  by pat_completeness auto
termination
  by (relation "measure (\<lambda>(buf, pos). length buf - pos)")
     (auto simp: byte_at_def split: if_splits)

function down_clamp :: "char list \<Rightarrow> nat \<Rightarrow> nat \<Rightarrow> nat \<Rightarrow> nat \<times> nat" where
  "down_clamp buf pos col line_pos =
     (if line_pos < col
      then (if byte_at buf pos = CHR 0x00 \<or> byte_at buf pos = CHR 0x0A
            then (pos, line_pos)
            else down_clamp buf (pos + 1) col (line_pos + 1))
      else (pos, col))"
  by pat_completeness auto
termination
  by (relation "measure (\<lambda>(buf, pos, col, line_pos). col - line_pos)") auto

declare up_scan.simps [simp del]
declare down_find.simps [simp del]
declare down_clamp.simps [simp del]

definition column_writes :: "nat \<Rightarrow> event list" where
  "column_writes col = [Out (esc ''[''), Out (s64_to_str col), Out ''C'']"

definition key_up :: "char list \<Rightarrow> nat \<times> nat \<Rightarrow> (nat \<times> nat) \<times> event list" where
  "key_up buf cur =
     (case cur of (pos, col) \<Rightarrow>
        if sz_sub pos col > 0 then
          (case up_scan buf (sz_sub pos (col + 1)) 0 of (pos1, line_len) \<Rightarrow>
             (let col1 = (if line_len > col then col else line_len) in
              if col1 > 0
              then ((pos1 + col1, col1), Out (esc ''[F'') # column_writes col1)
              else ((pos1, col1), [Out (esc ''[F'')])))
        else (cur, []))"

definition key_down :: "char list \<Rightarrow> nat \<times> nat \<Rightarrow> (nat \<times> nat) \<times> event list" where
  "key_down buf cur =
     (case cur of (pos0, col) \<Rightarrow>
        (let pos = down_find buf pos0 in
         if byte_at buf pos \<noteq> CHR 0x00 then
           (case down_clamp buf (pos + 1) col 0 of (pos1, col1) \<Rightarrow>
              ((pos1, col1),
               Out (esc ''[E'') # (if col1 > 0 then column_writes col1 else [])))
         else (cur, [])))"

text \<open>
  \<open>line_at buf s n\<close>: a line of \<open>n\<close> bytes starts at offset \<open>s\<close>. It starts
  the buffer or follows a newline, its bytes are neither NUL nor newline, and the byte
  after it is a newline or the terminator.
\<close>

definition line_at :: "char list \<Rightarrow> nat \<Rightarrow> nat \<Rightarrow> bool" where
  "line_at buf s n =
     ((s = 0 \<or> byte_at buf (s - 1) = CHR 0x0A) \<and>
      length (slice buf s (s + n)) = n \<and>
      CHR 0x00 \<notin> set (slice buf s (s + n)) \<and>
      CHR 0x0A \<notin> set (slice buf s (s + n)) \<and>
      (byte_at buf (s + n) = CHR 0x00 \<or> byte_at buf (s + n) = CHR 0x0A))"

lemma line_at_byte:
  assumes "line_at buf s n" and "i < n"
  shows "byte_at buf (s + i) \<noteq> CHR 0x00 \<and> byte_at buf (s + i) \<noteq> CHR 0x0A"
proof -
  have len: "length (slice buf s (s + n)) = n" using assms(1) by (simp add: line_at_def)
  then have "s + n \<le> length buf" using assms(2) by (simp add: slice_def)
  then have "byte_at buf (s + i) = slice buf s (s + n) ! i"
    using assms(2) by (simp add: byte_at_def slice_def)
  moreover have "slice buf s (s + n) ! i \<in> set (slice buf s (s + n))"
    using len assms(2) by (simp add: nth_mem)
  ultimately show ?thesis
    using assms(1) by (auto simp: line_at_def)
qed

lemma line_at_bound: "line_at buf s n \<Longrightarrow> s + n \<le> length buf"
proof -
  assume a: "line_at buf s n"
  then have "s = 0 \<or> s - 1 < length buf"
    by (auto simp: line_at_def byte_at_def split: if_splits)
  then have "s \<le> length buf" by auto
  moreover have "min (length buf - s) n = n"
    using a by (simp add: line_at_def slice_def)
  ultimately show ?thesis by simp
qed

lemma down_find_line:
  assumes "line_at buf s n"
  shows "k \<le> n \<Longrightarrow> down_find buf (s + k) = s + n"
proof (induction "n - k" arbitrary: k)
  case 0
  then have "k = n" by simp
  then show ?case
    using assms by (subst down_find.simps) (auto simp: line_at_def)
next
  case (Suc d)
  then have lt: "k < n" by simp
  have "down_find buf (s + (k + 1)) = s + n"
    using Suc lt by (intro Suc(1)) simp_all
  then show ?case
    using line_at_byte[OF assms lt] by (subst down_find.simps) (simp add: add.assoc)
qed

lemma down_clamp_line:
  assumes "line_at buf s n"
  shows "k \<le> min col n \<Longrightarrow> down_clamp buf (s + k) col k = (s + min col n, min col n)"
proof (induction "min col n - k" arbitrary: k)
  case 0
  then have k: "k = min col n" by simp
  show ?case
  proof (cases "col \<le> n")
    case True
    then show ?thesis using k by (subst down_clamp.simps) simp
  next
    case False
    then have "k = n" "n < col" using k by simp_all
    then show ?thesis
      using assms by (subst down_clamp.simps) (auto simp: line_at_def)
  qed
next
  case (Suc d)
  then have lt: "k < col" "k < n" by simp_all
  have "down_clamp buf (s + (k + 1)) col (k + 1) = (s + min col n, min col n)"
    using Suc lt by (intro Suc(1)) simp_all
  then show ?case
    using line_at_byte[OF assms lt(2)] lt by (subst down_clamp.simps) (simp add: add.assoc)
qed

lemma up_scan_line:
  assumes "line_at buf s n"
  shows "k \<le> n \<Longrightarrow> up_scan buf (s + k) len = (s, len + k)"
proof (induction k arbitrary: len)
  case 0
  then show ?case
    using assms by (subst up_scan.simps) (auto simp: line_at_def)
next
  case (Suc k)
  then have lt: "k < n" by simp
  have "up_scan buf (s + k) (len + 1) = (s, len + 1 + k)"
    using Suc by simp
  then show ?case
    using line_at_byte[OF assms lt] by (subst up_scan.simps) simp
qed

lemma sz_sub_plain:
  assumes "b \<le> a" and "a < size_modulus"
  shows "sz_sub a b = a - b"
proof -
  have m: "b mod size_modulus = b" using assms by simp
  have e: "a + (size_modulus - b) = (a - b) + size_modulus" using assms by arith
  have "((a - b) + size_modulus) mod size_modulus = (a - b) mod size_modulus"
    by (rule mod_add_self2)
  also have "\<dots> = a - b" using assms by (intro mod_less) arith
  finally show ?thesis by (simp only: sz_sub_def m e)
qed

lemma key_down_line:
  assumes l0: "line_at buf s0 n0" and nl: "byte_at buf (s0 + n0) = CHR 0x0A"
    and l1: "line_at buf (s0 + n0 + 1) n1" and k: "k \<le> n0"
  shows "fst (key_down buf (s0 + k, col)) = (s0 + n0 + 1 + min col n1, min col n1)"
proof -
  have "down_find buf (s0 + k) = s0 + n0"
    using down_find_line[OF l0 k] .
  moreover have "down_clamp buf (s0 + n0 + 1 + 0) col 0 = (s0 + n0 + 1 + min col n1, min col n1)"
    by (rule down_clamp_line[OF l1]) simp
  ultimately show ?thesis
    using nl by (simp add: key_down_def Let_def)
qed

lemma key_up_line:
  assumes l0: "line_at buf s0 n0" and nl: "byte_at buf (s0 + n0) = CHR 0x0A"
    and l1: "line_at buf (s0 + n0 + 1) n1" and col: "col \<le> n1"
    and small: "length buf < size_modulus"
  shows "fst (key_up buf (s0 + n0 + 1 + col, col)) = (s0 + min col n0, min col n0)"
proof -
  have bound: "s0 + n0 + 1 + col < size_modulus"
    using line_at_bound[OF l1] col small by simp
  have a: "sz_sub (s0 + n0 + 1 + col) col = s0 + n0 + 1"
    using bound by (subst sz_sub_plain) simp_all
  have b: "sz_sub (s0 + n0 + 1 + col) (col + 1) = s0 + n0"
    using bound by (subst sz_sub_plain) simp_all
  have c: "up_scan buf (s0 + n0) 0 = (s0, 0 + n0)"
    by (rule up_scan_line[OF l0]) simp
  show ?thesis
    using a b c by (auto simp: key_up_def Let_def min_def)
qed

section \<open>The input loops\<close>

text \<open>
  One round of either loop starts with \<^verbatim>\<open>read (0, input, 64)\<close>. A chunk is what the
  call returns: an error (\<open>-1\<close>), or the bytes read, none at the end of input. A
  failed \<^verbatim>\<open>assert\<close> ends the process at once; it is the \<open>Inl\<close> result of a
  handler. The state of a loop is the locals of its \<^verbatim>\<open>main\<close> together with the
  trace of events so far. Left out of the trace are the writes that show what was
  read (the \<^verbatim>\<open>printf\<close> calls at the head of the loop of \<^verbatim>\<open>tte.cpp\<close> and the
  status line of the later variant): they read neither the cursor nor the buffer and
  change neither.
\<close>

datatype chunk = ReadError | Bytes "char list"

datatype failure = AssertionFailed "char list"

subsection \<open>\<^verbatim>\<open>tte.cpp\<close>\<close>

text \<open>
  The locals of \<^verbatim>\<open>main\<close>. \<open>buffer\<close>, \<open>buffer_size\<close> and \<open>keep_running\<close> carry
  the prefix \<open>t_\<close>, since the later variant has locals of the same names.
\<close>

record tte_state =
  t_buffer :: "char list"
  t_buffer_size :: nat
  buffer_line_pos :: nat
  buffer_pos :: nat
  t_keep_running :: bool
  t_trace :: "event list"

definition tte_arrow :: "tte_state \<Rightarrow> char \<Rightarrow> failure + tte_state" where
  "tte_arrow s c =
     (if c = CHR ''A'' then
        (case key_up (t_buffer s) (buffer_pos s, buffer_line_pos s) of ((pos, col), evs) \<Rightarrow>
           Inr (s\<lparr>buffer_pos := pos, buffer_line_pos := col, t_trace := t_trace s @ evs\<rparr>))
      else if c = CHR ''B'' then
        (case key_down (t_buffer s) (buffer_pos s, buffer_line_pos s) of ((pos, col), evs) \<Rightarrow>
           Inr (s\<lparr>buffer_pos := pos, buffer_line_pos := col, t_trace := t_trace s @ evs\<rparr>))
      else if c = CHR ''C'' then
        (if byte_at (t_buffer s) (buffer_pos s) \<noteq> CHR 0x00 \<and>
            byte_at (t_buffer s) (buffer_pos s) \<noteq> CHR 0x0A
         then Inr (s\<lparr>buffer_line_pos := buffer_line_pos s + 1,
                      buffer_pos := buffer_pos s + 1,
                      t_trace := t_trace s @ [Out (esc ''[C'')]\<rparr>)
         else Inr s)
      else if c = CHR ''D'' then
        (if buffer_line_pos s > 0
         then Inr (s\<lparr>buffer_line_pos := buffer_line_pos s - 1,
                      buffer_pos := sz_sub (buffer_pos s) 1,
                      t_trace := t_trace s @ [Out (esc ''[D'')]\<rparr>)
         else Inr s)
      else Inl (AssertionFailed ''Unhandled escape key input''))"

definition tte_key :: "tte_state \<Rightarrow> chunk \<Rightarrow> failure + tte_state" where
  "tte_key s ch =
     (case ch of
        ReadError \<Rightarrow> Inl (AssertionFailed ''Unhandled key input'')
      | Bytes input \<Rightarrow>
          if length input = 1 then
            (let c = input ! 0 in
             if c = CHR 0x01 then Inr s
             else if c = CHR 0x1B then Inr (s\<lparr>t_keep_running := False\<rparr>)
             else if c = CHR 0x7F
             then Inr (s\<lparr>t_trace := t_trace s @ [Out [CHR 0x08, CHR '' '', CHR 0x08]]\<rparr>)
             else Inr (s\<lparr>t_trace := t_trace s @ [Out [c]]\<rparr>))
          else if length input = 3 \<and> input ! 0 = CHR 0x1B \<and> input ! 1 = CHR ''[''
          then tte_arrow s (input ! 2)
          else Inl (AssertionFailed ''Unhandled key input''))"

text \<open>
  \<^verbatim>\<open>while (keep_running)\<close> over the chunks that \<^verbatim>\<open>read\<close> will return. A loop
  ends when \<open>keep_running\<close> is cleared or an assertion fails; when the chunks run
  out first it is left blocked in \<^verbatim>\<open>read\<close>.
\<close>

datatype loop_end = LoopExit | Aborted failure | BlockedInRead

fun tte_loop :: "tte_state \<Rightarrow> chunk list \<Rightarrow> loop_end \<times> tte_state" where
  "tte_loop s [] = (if t_keep_running s then (BlockedInRead, s) else (LoopExit, s))"
| "tte_loop s (ch # chs) =
     (if t_keep_running s
      then (case tte_key s ch of Inl f \<Rightarrow> (Aborted f, s) | Inr s' \<Rightarrow> tte_loop s' chs)
      else (LoopExit, s))"

subsection \<open>The variant with \<^verbatim>\<open>struct Buffer\<close>\<close>

text \<open>
  \<^verbatim>\<open>struct Buffer\<close> (its field \<^verbatim>\<open>size\<close> is \<open>size_b\<close> here) and the locals of
  \<^verbatim>\<open>main\<close>; the locals \<^verbatim>\<open>x\<close> and \<^verbatim>\<open>y\<close> are \<open>cur_x\<close> and \<open>cur_y\<close>. Up and
  Down use \<^verbatim>\<open>y\<close> as the offset into the buffer and \<^verbatim>\<open>x\<close> as the column; the
  other handlers change \<^verbatim>\<open>x\<close> or \<^verbatim>\<open>y\<close> alone. The guard of Right and the
  statements that would move \<^verbatim>\<open>y\<close> with \<^verbatim>\<open>x\<close> in Right and Left are commented
  out in the source.
\<close>

record Buffer =
  data :: "char list"
  used :: nat
  size_b :: nat

record ed_state =
  buffer :: Buffer
  cur_x :: nat
  cur_y :: nat
  keep_running :: bool
  trace :: "event list"

definition ed_arrow :: "ed_state \<Rightarrow> char \<Rightarrow> failure + ed_state" where
  "ed_arrow s c =
     (if c = CHR ''A'' then
        (case key_up (data (buffer s)) (cur_y s, cur_x s) of ((pos, col), evs) \<Rightarrow>
           Inr (s\<lparr>cur_y := pos, cur_x := col, trace := trace s @ evs\<rparr>))
      else if c = CHR ''B'' then
        (case key_down (data (buffer s)) (cur_y s, cur_x s) of ((pos, col), evs) \<Rightarrow>
           Inr (s\<lparr>cur_y := pos, cur_x := col, trace := trace s @ evs\<rparr>))
      else if c = CHR ''C'' then
        Inr (s\<lparr>cur_x := cur_x s + 1, trace := trace s @ [Out (esc ''[C'')]\<rparr>)
      else if c = CHR ''D'' then
        (if cur_x s > 0
         then Inr (s\<lparr>cur_x := cur_x s - 1, trace := trace s @ [Out (esc ''[D'')]\<rparr>)
         else Inr s)
      else Inl (AssertionFailed ''Unhandled escape key input''))"

definition ed_key :: "ed_state \<Rightarrow> chunk \<Rightarrow> failure + ed_state" where
  "ed_key s ch =
     (case ch of
        ReadError \<Rightarrow> Inl (AssertionFailed ''bytes_read != -1'')
      | Bytes input \<Rightarrow>
          if length input = 1 then
            (let c = input ! 0 in
             if (32 :: nat) \<le> of_char c \<and> (of_char c :: nat) \<le> 126 then
               Inr (s\<lparr>cur_x := cur_x s + 1, trace := trace s @ [Out [c], Out (esc ''[C'')]\<rparr>)
             else if c = CHR 0x0A then
               Inr (s\<lparr>cur_x := 0, cur_y := cur_y s + 1, trace := trace s @ [Out (esc ''[C'')]\<rparr>)
             else if c = CHR 0x7F then
               (if cur_x s > 0
                then Inr (s\<lparr>cur_x := cur_x s - 1,
                             trace := trace s @ [Out (esc ''[D''), Out '' '']\<rparr>)
                else if cur_y s > 0
                then Inr (s\<lparr>cur_y := cur_y s - 1, trace := trace s @ [Out (esc ''[F'')]\<rparr>)
                else Inr s)
             else if c = CHR 0x11 \<or> c = CHR 0x1B then Inr (s\<lparr>keep_running := False\<rparr>)
             else Inr s)
          else if length input = 3 \<and> input ! 0 = CHR 0x1B \<and> input ! 1 = CHR ''[''
          then ed_arrow s (input ! 2)
          else Inr s)"

fun ed_loop :: "ed_state \<Rightarrow> chunk list \<Rightarrow> loop_end \<times> ed_state" where
  "ed_loop s [] = (if keep_running s then (BlockedInRead, s) else (LoopExit, s))"
| "ed_loop s (ch # chs) =
     (if keep_running s
      then (case ed_key s ch of Inl f \<Rightarrow> (Aborted f, s) | Inr s' \<Rightarrow> ed_loop s' chs)
      else (LoopExit, s))"

section \<open>The two \<^verbatim>\<open>main\<close> functions\<close>

text \<open>
  The environment of a run: the value of \<^verbatim>\<open>TERM\<close>, \<^verbatim>\<open>argv[0]\<close>, the file named
  by \<^verbatim>\<open>argv[1]\<close> when \<^verbatim>\<open>argc\<close> is 2 (it cannot be opened, or it has contents),
  the bytes that \<^verbatim>\<open>malloc\<close> hands out, which nothing initialises, whether
  \<^verbatim>\<open>tcgetattr\<close> and the two \<^verbatim>\<open>tcsetattr\<close> calls succeed, and the chunks that
  \<^verbatim>\<open>read\<close> returns. A run ends with an exit status or a failed assertion, or it
  does not end: blocked in \<^verbatim>\<open>read\<close>, or inside a scan that never returns. Of the
  calls on the file only \<^verbatim>\<open>open\<close> is taken to fail.
\<close>

datatype input_file = OpenFails | Contents "char list"

record env =
  env_TERM :: "char list option"
  exec_path :: "char list"
  file_arg :: "input_file option"
  malloc_bytes :: "char list"
  tcgetattr_ok :: bool
  tcsetattr_ok :: bool
  tcsetattr_restore_ok :: bool
  stdin_chunks :: "chunk list"

datatype outcome = Exit nat | Abort failure | BlocksInRead | NeverReturns

definition init :: "env \<Rightarrow> bool \<times> event list" where
  "init e =
     (case env_TERM e of
        None \<Rightarrow>
          (False,
           [Err (exec_path e),
            Err ('': The environment variable TERM isn'' @ [CHR 0x27] @ ''t set '' @
                 ''- it should be set to '' @ [CHR 0x60] @ ''xterm'' @ [CHR 0x27] @ ''.'' @
                 [CHR 0x0A])])
      | Some t \<Rightarrow>
          if t \<noteq> ''xterm'' \<and> t \<noteq> ''xterm-256color'' then
            (False,
             [Err (exec_path e),
              Err ('': The environment variable TERM is set to '' @ [CHR 0x60]),
              Err t,
              Err ([CHR 0x27] @ '' - should be '' @ [CHR 0x60] @ ''xterm'' @ [CHR 0x27] @
                   ''.'' @ [CHR 0x0A])])
          else (True, []))"

definition save_screen :: "char list" where
  "save_screen = esc ''[?47h''"

definition restore_screen :: "char list" where
  "restore_screen = esc ''[?47l''"

definition loop_outcome :: "loop_end \<Rightarrow> outcome" where
  "loop_outcome l =
     (case l of LoopExit \<Rightarrow> Exit 0 | Aborted f \<Rightarrow> Abort f | BlockedInRead \<Rightarrow> BlocksInRead)"

text \<open>
  \<^verbatim>\<open>main\<close> of \<^verbatim>\<open>tte.cpp\<close>. The buffer has 4096 bytes and \<^verbatim>\<open>read\<close> fills at
  most 4095 of them. The scan runs before the terminal attributes are touched. The
  code that would restore attributes and screen after the loop is commented out.
\<close>

definition tte_main :: "env \<Rightarrow> outcome \<times> event list" where
  "tte_main e =
     (case init e of
        (False, errs) \<Rightarrow> (Exit 1, errs)
      | (True, errs) \<Rightarrow>
          (case (case file_arg e of
                   None \<Rightarrow> Some [CHR 0x00]
                 | Some OpenFails \<Rightarrow> None
                 | Some (Contents bytes) \<Rightarrow> Some (take 4095 bytes @ [CHR 0x00])) of
             None \<Rightarrow> (Abort (AssertionFailed ''file != -1''), errs)
           | Some buf \<Rightarrow>
               (case tte_scan buf of
                  (evs, Returned1) \<Rightarrow> (Exit 1, Out save_screen # evs)
                | (evs, ReachedNul) \<Rightarrow>
                    if \<not> tcgetattr_ok e
                    then (Abort (AssertionFailed ''!tcgetattr_error''), Out save_screen # evs)
                    else if \<not> tcsetattr_ok e
                    then (Abort (AssertionFailed ''!tcsetattr_error''),
                          Out save_screen # evs @ [TcGetAttr])
                    else
                      (case tte_loop
                              \<lparr>t_buffer = buf, t_buffer_size = 4096, buffer_line_pos = 0,
                               buffer_pos = 0, t_keep_running = True,
                               t_trace = Out save_screen # evs @
                                 [TcGetAttr, TcSetAttr RawMode, Out (esc ''[H'')]\<rparr>
                              (stdin_chunks e) of
                         (l, s) \<Rightarrow> (loop_outcome l, t_trace s)))))"

text \<open>
  The later variant: \<^verbatim>\<open>new_buffer\<close>, \<^verbatim>\<open>load_file\<close> (which allocates one byte more
  than the file has, ends the text with NUL and scans it), \<^verbatim>\<open>init_screen\<close>,
  \<^verbatim>\<open>destroy_screen\<close> and \<^verbatim>\<open>main\<close>. \<open>ed_run\<close> is \<^verbatim>\<open>main\<close> from
  \<^verbatim>\<open>init_screen\<close> on.
\<close>

definition new_buffer :: "char list \<Rightarrow> nat \<Rightarrow> Buffer" where
  "new_buffer bytes n = \<lparr>data = bytes, used = 0, size_b = n\<rparr>"

definition load_file :: "input_file \<Rightarrow> (failure + Buffer \<times> event list) option" where
  "load_file f =
     (case f of
        OpenFails \<Rightarrow> Some (Inl (AssertionFailed ''fd != -1''))
      | Contents bytes \<Rightarrow>
          (let buf = (new_buffer (bytes @ [CHR 0x00]) (length bytes + 1))
                       \<lparr>used := length bytes + 1\<rparr>
           in Option.bind (load_file_scan (data buf)) (\<lambda>evs. Some (Inr (buf, evs)))))"

definition init_screen :: "env \<Rightarrow> failure option \<times> event list" where
  "init_screen e =
     (if \<not> tcgetattr_ok e
      then (Some (AssertionFailed ''!tcgetattr_error''), [Out (esc ''7''), Out save_screen])
      else if \<not> tcsetattr_ok e
      then (Some (AssertionFailed ''!tcsetattr_error''),
            [Out (esc ''7''), Out save_screen, TcGetAttr])
      else (None, [Out (esc ''7''), Out save_screen, TcGetAttr, TcSetAttr RawMode]))"

definition destroy_screen :: "env \<Rightarrow> failure + event list" where
  "destroy_screen e =
     (if \<not> tcsetattr_restore_ok e then Inl (AssertionFailed ''!tcsetattr_error'')
      else Inr [TcSetAttr OriginalMode, Out restore_screen, Out (esc ''8'')])"

definition ed_run :: "env \<Rightarrow> Buffer \<Rightarrow> event list \<Rightarrow> outcome \<times> event list" where
  "ed_run e b evs =
     (case init_screen e of
        (Some f, scr) \<Rightarrow> (Abort f, evs @ scr)
      | (None, scr) \<Rightarrow>
          (case ed_loop \<lparr>buffer = b, cur_x = 0, cur_y = 0, keep_running = True,
                         trace = evs @ scr @ [Out (esc ''[H'')]\<rparr> (stdin_chunks e) of
             (LoopExit, s) \<Rightarrow>
               (case destroy_screen e of
                  Inl f \<Rightarrow> (Abort f, trace s)
                | Inr rst \<Rightarrow> (Exit 0, trace s @ rst))
           | (l, s) \<Rightarrow> (loop_outcome l, trace s)))"

definition ed_main :: "env \<Rightarrow> outcome \<times> event list" where
  "ed_main e =
     (case init e of
        (False, errs) \<Rightarrow> (Exit 1, errs)
      | (True, errs) \<Rightarrow>
          (case file_arg e of
             None \<Rightarrow> ed_run e (new_buffer (malloc_bytes e) 4096) []
           | Some f \<Rightarrow>
               (case load_file f of
                  None \<Rightarrow> (NeverReturns, [])
                | Some (Inl fl) \<Rightarrow> (Abort fl, [])
                | Some (Inr (b, evs)) \<Rightarrow> ed_run e b evs)))"

lemma tte_arrow_frame:
  "tte_arrow s c = Inr s' \<Longrightarrow> t_buffer s' = t_buffer s \<and> t_buffer_size s' = t_buffer_size s"
  by (auto simp: tte_arrow_def split: if_splits prod.splits)

lemma tte_key_frame:
  "tte_key s ch = Inr s' \<Longrightarrow> t_buffer s' = t_buffer s \<and> t_buffer_size s' = t_buffer_size s"
  by (cases ch) (auto simp: tte_key_def Let_def dest: tte_arrow_frame split: if_splits)

lemma tte_loop_frame:
  "t_buffer (snd (tte_loop s chs)) = t_buffer s \<and>
   t_buffer_size (snd (tte_loop s chs)) = t_buffer_size s"
proof (induction chs arbitrary: s)
  case Nil
  show ?case by simp
next
  case (Cons ch chs)
  show ?case
  proof (cases "tte_key s ch")
    case (Inl f)
    then show ?thesis by simp
  next
    case (Inr s')
    then show ?thesis
      using Cons[of s'] tte_key_frame[OF Inr] by simp
  qed
qed

lemma ed_arrow_frame: "ed_arrow s c = Inr s' \<Longrightarrow> buffer s' = buffer s"
  by (auto simp: ed_arrow_def split: if_splits prod.splits)

lemma ed_key_frame: "ed_key s ch = Inr s' \<Longrightarrow> buffer s' = buffer s"
  by (cases ch) (auto simp: ed_key_def Let_def dest: ed_arrow_frame split: if_splits)

lemma ed_loop_frame: "buffer (snd (ed_loop s chs)) = buffer s"
proof (induction chs arbitrary: s)
  case Nil
  show ?case by simp
next
  case (Cons ch chs)
  show ?case
  proof (cases "ed_key s ch")
    case (Inl f)
    then show ?thesis by simp
  next
    case (Inr s')
    then show ?thesis
      using Cons[of s'] ed_key_frame[OF Inr] by simp
  qed
qed

section \<open>The decoder of the specification\<close>

text \<open>
  Neither program has a decoder of its own: each tests the bytes of the chunk where
  it handles them. The key events below and \<open>spec_decode\<close> follow the words of the
  specification (its section on the input decoder, rules 1 to 6 in order) and serve
  only to say which chunks a claim speaks of.
\<close>

datatype key_event =
  CharEvent char | Enter | Backspace | Quit
  | ArrowUp | ArrowDown | ArrowLeft | ArrowRight | Unrecognized "char list"

definition spec_decode :: "char list \<Rightarrow> key_event" where
  "spec_decode input =
     (if length input = 1 \<and> (32 :: nat) \<le> of_char (input ! 0) \<and> (of_char (input ! 0) :: nat) \<le> 126
      then CharEvent (input ! 0)
      else if length input = 1 \<and> input ! 0 = CHR 0x0A then Enter
      else if length input = 1 \<and> input ! 0 = CHR 0x7F then Backspace
      else if length input = 1 \<and> (input ! 0 = CHR 0x1B \<or> input ! 0 = CHR 0x11) then Quit
      else if length input = 3 \<and> input ! 0 = CHR 0x1B \<and> input ! 1 = CHR ''['' \<and>
              input ! 2 = CHR ''A'' then ArrowUp
      else if length input = 3 \<and> input ! 0 = CHR 0x1B \<and> input ! 1 = CHR ''['' \<and>
              input ! 2 = CHR ''B'' then ArrowDown
      else if length input = 3 \<and> input ! 0 = CHR 0x1B \<and> input ! 1 = CHR ''['' \<and>
              input ! 2 = CHR ''C'' then ArrowRight
      else if length input = 3 \<and> input ! 0 = CHR 0x1B \<and> input ! 1 = CHR ''['' \<and>
              input ! 2 = CHR ''D'' then ArrowLeft
      else Unrecognized input)"

definition is_csi3 :: "char list \<Rightarrow> bool" where
  "is_csi3 input = (length input = 3 \<and> input ! 0 = CHR 0x1B \<and> input ! 1 = CHR ''['')"

lemma unrecognized_ed_key:
  assumes "spec_decode input = Unrecognized input"
  shows "ed_key s (Bytes input) =
           (if is_csi3 input then Inl (AssertionFailed ''Unhandled escape key input'') else Inr s)"
proof (cases "is_csi3 input")
  case True
  then have "input ! 2 \<noteq> CHR ''A'' \<and> input ! 2 \<noteq> CHR ''B'' \<and> input ! 2 \<noteq> CHR ''C'' \<and>
             input ! 2 \<noteq> CHR ''D''"
    using assms by (auto simp: spec_decode_def is_csi3_def split: if_splits)
  then show ?thesis
    using True by (simp add: ed_key_def ed_arrow_def is_csi3_def)
next
  case False
  show ?thesis
  proof (cases "length input = 1")
    case True
    then show ?thesis
      using assms False
      by (auto simp: ed_key_def spec_decode_def is_csi3_def Let_def split: if_splits)
  next
    case ne: False
    then show ?thesis
      using False by (auto simp: ed_key_def is_csi3_def)
  qed
qed

lemma unrecognized_tte_key:
  assumes "spec_decode input = Unrecognized input"
  shows "tte_key t (Bytes input) =
           (if length input = 1
            then (if input ! 0 = CHR 0x01 then Inr t
                  else Inr (t\<lparr>t_trace := t_trace t @ [Out [input ! 0]]\<rparr>))
            else if is_csi3 input then Inl (AssertionFailed ''Unhandled escape key input'')
            else Inl (AssertionFailed ''Unhandled key input''))"
proof (cases "length input = 1")
  case True
  then show ?thesis
    using assms by (auto simp: tte_key_def spec_decode_def Let_def split: if_splits)
next
  case ne: False
  show ?thesis
  proof (cases "is_csi3 input")
    case True
    then have "input ! 2 \<noteq> CHR ''A'' \<and> input ! 2 \<noteq> CHR ''B'' \<and> input ! 2 \<noteq> CHR ''C'' \<and>
               input ! 2 \<noteq> CHR ''D''"
      using assms by (auto simp: spec_decode_def is_csi3_def split: if_splits)
    then show ?thesis
      using True by (simp add: tte_key_def tte_arrow_def is_csi3_def)
  next
    case False
    then show ?thesis
      using ne by (auto simp: tte_key_def is_csi3_def)
  qed
qed

text \<open>
  Loop states for the examples: the state in which either loop is entered, for a
  given buffer, and the chunk an arrow key sends.
\<close>

definition ed_start :: "char list \<Rightarrow> ed_state" where
  "ed_start bytes =
     \<lparr>buffer = \<lparr>data = bytes, used = length bytes, size_b = length bytes\<rparr>,
      cur_x = 0, cur_y = 0, keep_running = True, trace = []\<rparr>"

definition tte_start :: "char list \<Rightarrow> tte_state" where
  "tte_start bytes =
     \<lparr>t_buffer = bytes, t_buffer_size = 4096, buffer_line_pos = 0, buffer_pos = 0,
      t_keep_running = True, t_trace = []\<rparr>"




definition arrow :: "char \<Rightarrow> chunk" where
  "arrow c = Bytes [CHR 0x1B, CHR ''['', c]"

definition tte_cursor :: "tte_state \<Rightarrow> nat \<times> nat" where
  "tte_cursor t = (buffer_pos t, buffer_line_pos t)"

definition ed_cursor :: "ed_state \<Rightarrow> nat \<times> nat" where
  "ed_cursor s = (cur_y s, cur_x s)"

lemma tte_key_down:
  "tte_key t (arrow CHR ''B'') = Inr t' \<Longrightarrow>
   tte_cursor t' = fst (key_down (t_buffer t) (tte_cursor t)) \<and>
   t_buffer t' = t_buffer t \<and> t_keep_running t' = t_keep_running t"
  by (auto simp: arrow_def tte_key_def tte_arrow_def tte_cursor_def split: prod.splits)

lemma tte_key_up:
  "tte_key t (arrow CHR ''A'') = Inr t' \<Longrightarrow>
   tte_cursor t' = fst (key_up (t_buffer t) (tte_cursor t)) \<and>
   t_buffer t' = t_buffer t \<and> t_keep_running t' = t_keep_running t"
  by (auto simp: arrow_def tte_key_def tte_arrow_def tte_cursor_def split: prod.splits)

lemma tte_key_arrow_total:
  "c = CHR ''A'' \<or> c = CHR ''B'' \<Longrightarrow> \<exists>t'. tte_key t (arrow c) = Inr t'"
  by (auto simp: arrow_def tte_key_def tte_arrow_def split: prod.splits)

lemma ed_key_down:
  "ed_key s (arrow CHR ''B'') = Inr s' \<Longrightarrow>
   ed_cursor s' = fst (key_down (data (buffer s)) (ed_cursor s)) \<and>
   buffer s' = buffer s \<and> keep_running s' = keep_running s"
  by (auto simp: arrow_def ed_key_def ed_arrow_def ed_cursor_def split: prod.splits)

lemma ed_key_up:
  "ed_key s (arrow CHR ''A'') = Inr s' \<Longrightarrow>
   ed_cursor s' = fst (key_up (data (buffer s)) (ed_cursor s)) \<and>
   buffer s' = buffer s \<and> keep_running s' = keep_running s"
  by (auto simp: arrow_def ed_key_def ed_arrow_def ed_cursor_def split: prod.splits)

lemma ed_key_arrow_total:
  "c = CHR ''A'' \<or> c = CHR ''B'' \<Longrightarrow> \<exists>s'. ed_key s (arrow c) = Inr s'"
  by (auto simp: arrow_def ed_key_def ed_arrow_def split: prod.splits)

lemma tte_down_up:
  assumes l0: "line_at buf s0 n0" and nl: "byte_at buf (s0 + n0) = CHR 0x0A"
    and l1: "line_at buf (s0 + n0 + 1) n1"
    and k: "k \<le> n0" and short: "n1 < col"
    and small: "length buf < size_modulus"
    and t: "t_buffer t = buf" "tte_cursor t = (s0 + k, col)" "t_keep_running t"
  shows "tte_cursor (snd (tte_loop t [arrow CHR ''B''])) = (s0 + n0 + 1 + n1, n1) \<and>
         tte_cursor (snd (tte_loop t [arrow CHR ''B'', arrow CHR ''A''])) =
           (s0 + min n1 n0, min n1 n0)"
proof -
  obtain t1 where t1: "tte_key t (arrow CHR ''B'') = Inr t1"
    using tte_key_arrow_total[of "CHR ''B''" t] by auto
  obtain t2 where t2: "tte_key t1 (arrow CHR ''A'') = Inr t2"
    using tte_key_arrow_total[of "CHR ''A''" t1] by auto
  have c1: "tte_cursor t1 = (s0 + n0 + 1 + n1, n1)"
    using tte_key_down[OF t1] key_down_line[OF l0 nl l1 k, of col] t short
    by (simp add: min_def)
  have k1: "t_buffer t1 = buf" "t_keep_running t1"
    using tte_key_down[OF t1] t by simp_all
  have c2: "tte_cursor t2 = (s0 + min n1 n0, min n1 n0)"
    using tte_key_up[OF t2] key_up_line[OF l0 nl l1 _ small, of n1] k1 c1
    by simp
  show ?thesis
    using t(3) k1(2) t1 t2 c1 c2 by simp
qed

lemma ed_down_up:
  assumes l0: "line_at buf s0 n0" and nl: "byte_at buf (s0 + n0) = CHR 0x0A"
    and l1: "line_at buf (s0 + n0 + 1) n1"
    and k: "k \<le> n0" and short: "n1 < col"
    and small: "length buf < size_modulus"
    and s: "data (buffer s) = buf" "ed_cursor s = (s0 + k, col)" "keep_running s"
  shows "ed_cursor (snd (ed_loop s [arrow CHR ''B''])) = (s0 + n0 + 1 + n1, n1) \<and>
         ed_cursor (snd (ed_loop s [arrow CHR ''B'', arrow CHR ''A''])) =
           (s0 + min n1 n0, min n1 n0)"
proof -
  obtain s1 where s1: "ed_key s (arrow CHR ''B'') = Inr s1"
    using ed_key_arrow_total[of "CHR ''B''" s] by auto
  obtain s2 where s2: "ed_key s1 (arrow CHR ''A'') = Inr s2"
    using ed_key_arrow_total[of "CHR ''A''" s1] by auto
  have c1: "ed_cursor s1 = (s0 + n0 + 1 + n1, n1)"
    using ed_key_down[OF s1] key_down_line[OF l0 nl l1 k, of col] s short
    by (simp add: min_def)
  have k1: "data (buffer s1) = buf" "keep_running s1"
    using ed_key_down[OF s1] s by simp_all
  have c2: "ed_cursor s2 = (s0 + min n1 n0, min n1 n0)"
    using ed_key_up[OF s2] key_up_line[OF l0 nl l1 _ small, of n1] k1 c1
    by simp
  show ?thesis
    using s(3) k1(2) s1 s2 c1 c2 by simp
qed

definition two_lines :: "char list" where
  "two_lines = ''a'' @ [CHR 0x0A] @ ''bc'' @ [CHR 0x00]"

definition three_lines :: "char list" where
  "three_lines = ''abcde'' @ [CHR 0x0A] @ ''fg'' @ [CHR 0x0A] @ ''hijklmno'' @ [CHR 0x00]"

text \<open>
  An event restores the terminal when it sets the original attributes or writes the
  sequence that restores the saved screen.
\<close>

fun restores :: "event \<Rightarrow> bool" where
  "restores (TcSetAttr a) = (a = OriginalMode)"
| "restores (Out w) = (w = restore_screen)"
| "restores ev = False"

definition no_restore :: "event list \<Rightarrow> bool" where
  "no_restore evs = list_all (\<lambda>ev. \<not> restores ev) evs"

fun is_err :: "event \<Rightarrow> bool" where
  "is_err (Err m) = True"
| "is_err ev = False"

definition stderr_only :: "event list \<Rightarrow> bool" where
  "stderr_only evs = list_all is_err evs"

lemma no_restore_append [simp]: "no_restore (xs @ ys) = (no_restore xs \<and> no_restore ys)"
  by (simp add: no_restore_def)

lemma no_restore_Nil [simp]: "no_restore []"
  by (simp add: no_restore_def)

lemma no_restore_Cons [simp]: "no_restore (ev # evs) = (\<not> restores ev \<and> no_restore evs)"
  by (simp add: no_restore_def)

lemma u64_digits_no_esc: "CHR 0x1B \<notin> set (u64_digits n)"
proof (induction n rule: u64_digits.induct)
  case (1 num)
  show ?case
  proof (cases "num > 0")
    case True
    have "num - num div 10 * 10 = num mod 10"
      by (simp add: minus_div_mult_eq_mod)
    then have r: "num - num div 10 * 10 + 48 < 58 \<and> 48 \<le> num - num div 10 * 10 + 48"
      by simp
    have "char_of (num - num div 10 * 10 + 48) \<noteq> CHR 0x1B"
    proof
      assume "char_of (num - num div 10 * 10 + 48) = CHR 0x1B"
      then have "of_char (char_of (num - num div 10 * 10 + 48) :: char) = (27 :: nat)"
        by simp
      then have "(num - num div 10 * 10 + 48) mod 256 = 27"
        by (simp only: of_char_of)
      then show False using r by simp
    qed
    then show ?thesis
      using 1 True by (subst u64_digits.simps) simp
  next
    case False
    then show ?thesis by (subst u64_digits.simps) simp
  qed
qed

lemma s64_to_str_no_esc: "CHR 0x1B \<notin> set (s64_to_str n)"
  using u64_digits_no_esc by (simp add: s64_to_str_def u64_to_str_def)

lemma column_writes_no_restore: "no_restore (column_writes col)"
proof -
  have "s64_to_str col \<noteq> restore_screen"
  proof
    assume "s64_to_str col = restore_screen"
    then have "CHR 0x1B \<in> set (s64_to_str col)"
      by (simp add: restore_screen_def esc_def)
    then show False using s64_to_str_no_esc by simp
  qed
  then show ?thesis
    by (simp add: column_writes_def restore_screen_def esc_def)
qed

lemma key_up_no_restore: "no_restore (snd (key_up buf cur))"
  using column_writes_no_restore
  by (auto simp: key_up_def Let_def restore_screen_def esc_def split: prod.splits)

lemma key_down_no_restore: "no_restore (snd (key_down buf cur))"
  using column_writes_no_restore
  by (auto simp: key_down_def Let_def restore_screen_def esc_def split: prod.splits)

lemma ed_key_trace:
  "ed_key s ch = Inr s' \<Longrightarrow> \<exists>evs. trace s' = trace s @ evs \<and> no_restore evs"
proof (cases ch)
  case ReadError
  assume "ed_key s ch = Inr s'"
  then show ?thesis using ReadError by (simp add: ed_key_def)
next
  case (Bytes input)
  assume a: "ed_key s ch = Inr s'"
  show ?thesis
    using a Bytes key_up_no_restore[of "data (buffer s)" "(cur_y s, cur_x s)"]
      key_down_no_restore[of "data (buffer s)" "(cur_y s, cur_x s)"]
    by (auto simp: ed_key_def ed_arrow_def Let_def restore_screen_def esc_def
        split: if_splits prod.splits)
qed

lemma tte_key_trace:
  "tte_key s ch = Inr s' \<Longrightarrow> \<exists>evs. t_trace s' = t_trace s @ evs \<and> no_restore evs"
proof (cases ch)
  case ReadError
  assume "tte_key s ch = Inr s'"
  then show ?thesis using ReadError by (simp add: tte_key_def)
next
  case (Bytes input)
  assume a: "tte_key s ch = Inr s'"
  show ?thesis
    using a Bytes key_up_no_restore[of "t_buffer s" "(buffer_pos s, buffer_line_pos s)"]
      key_down_no_restore[of "t_buffer s" "(buffer_pos s, buffer_line_pos s)"]
    by (auto simp: tte_key_def tte_arrow_def Let_def restore_screen_def esc_def
        split: if_splits prod.splits)
qed

lemma ed_loop_trace:
  "\<exists>evs. trace (snd (ed_loop s chs)) = trace s @ evs \<and> no_restore evs"
proof (induction chs arbitrary: s)
  case Nil
  show ?case by simp
next
  case (Cons ch chs)
  show ?case
  proof (cases "ed_key s ch")
    case (Inl f)
    then show ?thesis by simp
  next
    case (Inr s')
    obtain e1 where e1: "trace s' = trace s @ e1" "no_restore e1"
      using ed_key_trace[OF Inr] by auto
    obtain e2 where e2: "trace (snd (ed_loop s' chs)) = trace s' @ e2" "no_restore e2"
      using Cons[of s'] by auto
    show ?thesis
    proof (cases "keep_running s")
      case True
      then have "trace (snd (ed_loop s (ch # chs))) = trace s @ (e1 @ e2)"
        using Inr e1 e2 by simp
      then show ?thesis using e1 e2 by (metis no_restore_append)
    next
      case False
      then show ?thesis by simp
    qed
  qed
qed

lemma tte_loop_trace:
  "\<exists>evs. t_trace (snd (tte_loop s chs)) = t_trace s @ evs \<and> no_restore evs"
proof (induction chs arbitrary: s)
  case Nil
  show ?case by simp
next
  case (Cons ch chs)
  show ?case
  proof (cases "tte_key s ch")
    case (Inl f)
    then show ?thesis by simp
  next
    case (Inr s')
    obtain e1 where e1: "t_trace s' = t_trace s @ e1" "no_restore e1"
      using tte_key_trace[OF Inr] by auto
    obtain e2 where e2: "t_trace (snd (tte_loop s' chs)) = t_trace s' @ e2" "no_restore e2"
      using Cons[of s'] by auto
    show ?thesis
    proof (cases "t_keep_running s")
      case True
      then have "t_trace (snd (tte_loop s (ch # chs))) = t_trace s @ (e1 @ e2)"
        using Inr e1 e2 by simp
      then show ?thesis using e1 e2 by (metis no_restore_append)
    next
      case False
      then show ?thesis by simp
    qed
  qed
qed

lemma scan_branch_no_restore: "scan_branch buf p = Some (q, evs) \<Longrightarrow> no_restore evs"
  by (auto simp: scan_branch_def Let_def restore_screen_def esc_def split: if_splits prod.splits)

lemma tte_scan_loop_no_restore: "no_restore (fst (tte_scan_loop buf p))"
proof (induction buf p rule: tte_scan_loop.induct)
  case (1 buf p)
  show ?case
  proof (cases "byte_at buf p = CHR 0x00")
    case True
    then show ?thesis by (subst tte_scan_loop.simps) simp
  next
    case nz: False
    show ?thesis
    proof (cases "scan_branch buf p")
      case None
      then show ?thesis using nz by (subst tte_scan_loop.simps) simp
    next
      case (Some x2)
      obtain q evs where x2: "x2 = (q, evs)" by (cases x2)
      obtain r ws where ps: "parse_space buf q = (r, ws)" by (cases "parse_space buf q")
      obtain rest st where rec: "tte_scan_loop buf r = (rest, st)" by (cases "tte_scan_loop buf r")
      have "no_restore rest"
        using 1[OF nz Some x2[symmetric] ps[symmetric]] rec by simp
      moreover have "no_restore evs"
        using scan_branch_no_restore Some x2 by simp
      ultimately show ?thesis
        using nz Some x2 ps rec by (subst tte_scan_loop.simps) simp
    qed
  qed
qed

lemma tte_scan_no_restore: "no_restore (fst (tte_scan buf))"
  using tte_scan_loop_no_restore[of buf "fst (parse_space buf 0)"]
  by (auto simp: tte_scan_def split: prod.splits)


lemma init_accepts:
  "fst (init e) \<Longrightarrow> snd (init e) = []"
  by (cases "env_TERM e") (auto simp: init_def split: if_splits)

lemma init_screen_no_restore: "no_restore (snd (init_screen e))"
  by (simp add: init_screen_def save_screen_def restore_screen_def esc_def)

lemma ed_run_exit:
  assumes "fst (ed_run e b evs) = Exit 0"
  shows "\<exists>tr. snd (ed_run e b evs) =
                evs @ tr @ [TcSetAttr OriginalMode, Out restore_screen, Out (esc ''8'')] \<and>
              TcSetAttr RawMode \<in> set tr \<and> no_restore tr"
proof -
  let ?scr = "[Out (esc ''7''), Out save_screen, TcGetAttr, TcSetAttr RawMode]"
  let ?s0 = "\<lparr>buffer = b, cur_x = 0, cur_y = 0, keep_running = True,
              trace = evs @ ?scr @ [Out (esc ''[H'')]\<rparr>"
  have scr: "init_screen e = (None, ?scr)"
    using assms by (auto simp: ed_run_def init_screen_def split: if_splits)
  obtain l s where ls: "ed_loop ?s0 (stdin_chunks e) = (l, s)"
    by (cases "ed_loop ?s0 (stdin_chunks e)")
  have l: "l = LoopExit"
    using assms scr ls by (cases l) (auto simp: ed_run_def loop_outcome_def)
  have ok: "destroy_screen e = Inr [TcSetAttr OriginalMode, Out restore_screen, Out (esc ''8'')]"
    using assms scr ls l by (auto simp: ed_run_def destroy_screen_def split: if_splits)
  obtain more where more: "trace s = trace ?s0 @ more" "no_restore more"
    using ed_loop_trace[of ?s0 "stdin_chunks e"] ls by auto
  have "snd (ed_run e b evs) =
          evs @ (?scr @ [Out (esc ''[H'')] @ more) @
          [TcSetAttr OriginalMode, Out restore_screen, Out (esc ''8'')]"
    using scr ls l ok more by (simp add: ed_run_def)
  moreover have "TcSetAttr RawMode \<in> set (?scr @ [Out (esc ''[H'')] @ more)"
    by simp
  moreover have "no_restore (?scr @ [Out (esc ''[H'')] @ more)"
    using more(2) by (simp add: save_screen_def restore_screen_def esc_def)
  ultimately show ?thesis by blast
qed

lemma ed_run_abort:
  assumes "fst (ed_run e b evs) = Abort f" and "no_restore evs"
  shows "no_restore (snd (ed_run e b evs))"
proof (cases "fst (init_screen e)")
  case (Some g)
  then have "snd (ed_run e b evs) = evs @ snd (init_screen e)"
    by (cases "init_screen e") (simp add: ed_run_def)
  then show ?thesis
    using assms(2) init_screen_no_restore by simp
next
  case None
  let ?s0 = "\<lparr>buffer = b, cur_x = 0, cur_y = 0, keep_running = True,
              trace = evs @ snd (init_screen e) @ [Out (esc ''[H'')]\<rparr>"
  obtain l s where ls: "ed_loop ?s0 (stdin_chunks e) = (l, s)"
    by (cases "ed_loop ?s0 (stdin_chunks e)")
  obtain more where more: "trace s = trace ?s0 @ more" "no_restore more"
    using ed_loop_trace[of ?s0 "stdin_chunks e"] ls by auto
  have nr: "no_restore (trace s)"
    using more assms(2) init_screen_no_restore[of e]
    by (simp add: restore_screen_def esc_def)
  have "snd (ed_run e b evs) = trace s"
    using assms(1) None ls
    by (cases "init_screen e"; cases l)
       (auto simp: ed_run_def loop_outcome_def destroy_screen_def split: if_splits)
  then show ?thesis using nr by simp
qed

lemma load_file_events:
  "load_file f = Some (Inr (b, evs)) \<Longrightarrow> no_restore evs"
  using tte_scan_no_restore
  by (cases f) (auto simp: load_file_def Let_def load_file_scan_eq split: if_splits)

lemma ed_main_exit:
  assumes "fst (ed_main e) = Exit 0"
  shows "\<exists>tr. snd (ed_main e) =
                tr @ [TcSetAttr OriginalMode, Out restore_screen, Out (esc ''8'')] \<and>
              TcSetAttr RawMode \<in> set tr \<and> no_restore tr"
proof -
  have i: "init e = (True, [])"
    using assms init_accepts[of e] by (cases "init e") (auto simp: ed_main_def split: bool.splits)
  show ?thesis
  proof (cases "file_arg e")
    case None
    then have eq: "ed_main e = ed_run e (new_buffer (malloc_bytes e) 4096) []"
      using i by (simp add: ed_main_def)
    then show ?thesis
      using ed_run_exit[of e "new_buffer (malloc_bytes e) 4096" "[]"] assms by simp
  next
    case (Some f)
    then obtain b evs where lf: "load_file f = Some (Inr (b, evs))"
      and eq: "ed_main e = ed_run e b evs"
      using i assms by (auto simp: ed_main_def split: option.splits sum.splits)
    obtain tr where tr:
      "snd (ed_run e b evs) =
         evs @ tr @ [TcSetAttr OriginalMode, Out restore_screen, Out (esc ''8'')]"
      "TcSetAttr RawMode \<in> set tr" "no_restore tr"
      using ed_run_exit[of e b evs] assms eq by auto
    have "no_restore (evs @ tr)"
      using load_file_events[OF lf] tr(3) by simp
    moreover have "TcSetAttr RawMode \<in> set (evs @ tr)" using tr(2) by simp
    moreover have "snd (ed_main e) =
        (evs @ tr) @ [TcSetAttr OriginalMode, Out restore_screen, Out (esc ''8'')]"
      using eq tr(1) by simp
    ultimately show ?thesis by blast
  qed
qed

lemma ed_main_abort:
  assumes "fst (ed_main e) = Abort f"
  shows "no_restore (snd (ed_main e))"
proof -
  have i: "init e = (True, [])"
    using assms init_accepts[of e] by (cases "init e") (auto simp: ed_main_def split: bool.splits)
  show ?thesis
  proof (cases "file_arg e")
    case None
    then have eq: "ed_main e = ed_run e (new_buffer (malloc_bytes e) 4096) []"
      using i by (simp add: ed_main_def)
    then show ?thesis
      using ed_run_abort[of e "new_buffer (malloc_bytes e) 4096" "[]" f] assms by simp
  next
    case (Some g)
    show ?thesis
    proof (cases "load_file g")
      case None
      then show ?thesis using i Some assms by (simp add: ed_main_def)
    next
      case lf: (Some r)
      show ?thesis
      proof (cases r)
        case (Inl fl)
        then show ?thesis using i Some lf by (simp add: ed_main_def)
      next
        case (Inr be)
        obtain b evs where be: "be = (b, evs)" by (cases be)
        have eq: "ed_main e = ed_run e b evs"
          using i Some lf Inr be by (simp add: ed_main_def)
        have "no_restore evs"
          using load_file_events[of g b evs] lf Inr be by simp
        then show ?thesis
          using ed_run_abort[of e b evs f] assms eq by simp
      qed
    qed
  qed
qed

lemma tte_main_no_restore: "no_restore (snd (tte_main e))"
proof (cases "init e")
  case (Pair ok errs)
  show ?thesis
  proof (cases ok)
    case False
    have "stderr_only errs \<or> errs = []"
      using Pair by (cases "env_TERM e") (auto simp: init_def stderr_only_def split: if_splits)
    then have "no_restore errs"
      using Pair by (cases "env_TERM e") (auto simp: init_def split: if_splits)
    then show ?thesis using Pair False by (simp add: tte_main_def)
  next
    case True
    then have errs: "errs = []" using init_accepts[of e] Pair by simp
    show ?thesis
    proof (cases "case file_arg e of None \<Rightarrow> Some [CHR 0x00] | Some OpenFails \<Rightarrow> None
                    | Some (Contents bytes) \<Rightarrow> Some (take 4095 bytes @ [CHR 0x00])")
      case None
      then show ?thesis using Pair True errs by (simp add: tte_main_def)
    next
      case (Some buf)
      obtain evs st where sc: "tte_scan buf = (evs, st)" by (cases "tte_scan buf")
      have nr: "no_restore evs" using tte_scan_no_restore[of buf] sc by simp
      let ?s0 = "\<lparr>t_buffer = buf, t_buffer_size = 4096, buffer_line_pos = 0,
                  buffer_pos = 0, t_keep_running = True,
                  t_trace = Out save_screen # evs @
                    [TcGetAttr, TcSetAttr RawMode, Out (esc ''[H'')]\<rparr>"
      obtain l s where ls: "tte_loop ?s0 (stdin_chunks e) = (l, s)"
        by (cases "tte_loop ?s0 (stdin_chunks e)")
      obtain more where more: "t_trace s = t_trace ?s0 @ more" "no_restore more"
        using tte_loop_trace[of ?s0 "stdin_chunks e"] ls by auto
      have "no_restore (t_trace s)"
        using more nr by (simp add: save_screen_def restore_screen_def esc_def)
      then show ?thesis
        using Pair True errs Some sc nr ls
        by (cases st) (auto simp: tte_main_def save_screen_def restore_screen_def esc_def)
    qed
  qed
qed

definition quit_env :: env where
  "quit_env =
     \<lparr>env_TERM = Some ''xterm'', exec_path = ''tte'', file_arg = None, malloc_bytes = [],
      tcgetattr_ok = True, tcsetattr_ok = True, tcsetattr_restore_ok = True,
      stdin_chunks = [Bytes [CHR 0x1B]]\<rparr>"

text \<open>
  A buffer on which the scan is sure to complete: every byte of its text is of a
  lexical class. (The scan completes on more buffers than these, since a comment or
  a string literal may hold any byte.)
\<close>

definition lexical :: "char \<Rightarrow> bool" where
  "lexical c = (is_space c \<or> c = CHR ''/'' \<or> c = CHR 0x22 \<or> is_punct c \<or> is_latin c \<or> is_digit c)"

lemma scan_branch_lexical:
  assumes "lexical (byte_at buf p)" and "\<not> is_space (byte_at buf p)"
  shows "scan_branch buf p \<noteq> None"
  using assms by (auto simp: scan_branch_def lexical_def Let_def split: prod.splits)

lemma tte_scan_loop_completes:
  "list_all lexical (cstring buf) \<Longrightarrow> p \<le> strlen buf \<Longrightarrow> \<not> is_space (byte_at buf p) \<Longrightarrow>
   snd (tte_scan_loop buf p) = ReachedNul"
proof (induction buf p rule: tte_scan_loop.induct)
  case (1 buf p)
  show ?case
  proof (cases "byte_at buf p = CHR 0x00")
    case True
    then show ?thesis by (subst tte_scan_loop.simps) simp
  next
    case nz: False
    have lt: "p < strlen buf" using 1(3) nz by (rule byte_at_in_string)
    then have "cstring buf ! p \<in> set (cstring buf)"
      by (simp add: strlen_def)
    then have "lexical (byte_at buf p)"
      using 1(2) lt by (simp add: byte_at_cstring list_all_iff)
    then obtain q evs where sb: "scan_branch buf p = Some (q, evs)"
      using scan_branch_lexical[OF _ 1(4)] by (cases "scan_branch buf p") auto
    obtain r ws where ps: "parse_space buf q = (r, ws)" by (cases "parse_space buf q")
    obtain rest st where rec: "tte_scan_loop buf r = (rest, st)" by (cases "tte_scan_loop buf r")
    have "covers buf p q (span_text evs)"
      using scan_branch_covers[OF 1(3) nz sb] by simp
    then have qle: "q \<le> strlen buf" by (simp add: covers_def)
    have rle: "r \<le> strlen buf"
      using parse_space_covers[OF qle] ps by (simp add: covers_def)
    have ns: "\<not> is_space (byte_at buf r)"
      using parse_space_stops[of buf q] ps by simp
    have "st = ReachedNul"
      using 1(1)[OF nz sb refl ps[symmetric] 1(2) rle ns] rec by simp
    then show ?thesis
      using nz sb ps rec by (subst tte_scan_loop.simps) simp
  qed
qed

lemma tte_scan_completes:
  "list_all lexical (cstring buf) \<Longrightarrow> snd (tte_scan buf) = ReachedNul"
proof -
  assume lex: "list_all lexical (cstring buf)"
  obtain p ws where ps: "parse_space buf 0 = (p, ws)" by (cases "parse_space buf 0")
  have ple: "p \<le> strlen buf"
    using parse_space_covers[of 0 buf] ps by (simp add: covers_def)
  have ns: "\<not> is_space (byte_at buf p)"
    using parse_space_stops[of buf 0] ps by simp
  show ?thesis
    using tte_scan_loop_completes[OF lex ple ns] ps
    by (auto simp: tte_scan_def split: prod.splits)
qed

chapter \<open>The claims\<close>

section \<open>Claims about the highlighting scan\<close>

text \<open>
  Claim C1, as amended. The claim as written (every buffer is reproduced by its spans)
  fails on a buffer in which the scan meets a byte outside the lexical classes: the
  scan of \<^verbatim>\<open>tte.cpp\<close> prints an error and returns 1 there. What holds: whenever
  that scan runs to the terminating NUL, the scan of \<^verbatim>\<open>load_file\<close> returns the same
  events, every span starts where the one before it ended, the first starts at
  offset 0, and the span texts put together are the text of the buffer.
\<close>

theorem scan_partitions_buffer:
  assumes "snd (tte_scan buf) = ReachedNul"
  shows "load_file_scan buf = Some (fst (tte_scan buf)) \<and>
         contiguous 0 (fst (tte_scan buf)) \<and>
         span_text (fst (tte_scan buf)) = cstring buf"
  using assms tte_scan_covers[of buf] by (simp add: load_file_scan_eq)

theorem scan_partitions_buffer_witness:
  "snd (tte_scan (''// hi'' @ [CHR 0x0A] @ ''x=1;'')) = ReachedNul \<and>
   load_file_scan (''// hi'' @ [CHR 0x0A] @ ''x=1;'') =
     Some (fst (tte_scan (''// hi'' @ [CHR 0x0A] @ ''x=1;''))) \<and>
   contiguous 0 (fst (tte_scan (''// hi'' @ [CHR 0x0A] @ ''x=1;''))) \<and>
   span_text (fst (tte_scan (''// hi'' @ [CHR 0x0A] @ ''x=1;''))) =
     ''// hi'' @ [CHR 0x0A] @ ''x=1;''"
proof -
  have h: "snd (tte_scan (''// hi'' @ [CHR 0x0A] @ ''x=1;'')) = ReachedNul"
    by code_simp
  have c: "cstring (''// hi'' @ [CHR 0x0A] @ ''x=1;'') = ''// hi'' @ [CHR 0x0A] @ ''x=1;''"
    by (simp add: cstring_def)
  show ?thesis
    using h scan_partitions_buffer[OF h] c by simp
qed

text \<open>
  The counterexample to C1 as written: on the buffer \<open>a#b\<close> the scan of
  \<^verbatim>\<open>tte.cpp\<close> returns 1 after the span \<open>a\<close>, and the scan of \<^verbatim>\<open>load_file\<close>
  does not return.
\<close>

theorem scan_partitions_buffer_counterexample:
  "snd (tte_scan ''a#b'') = Returned1 \<and>
   span_text (fst (tte_scan ''a#b'')) = ''a'' \<and>
   cstring ''a#b'' = ''a#b'' \<and>
   load_file_scan ''a#b'' = None"
proof -
  have a: "tte_scan ''a#b'' =
             ([Span Whitespace 0 [], Out (esc ''[1;34m''), Span Identifier 0 ''a'',
               Out (esc ''[m''), Span Whitespace 1 [], Diag CHR ''#''], Returned1)"
    by code_simp
  have c: "cstring ''a#b'' = ''a#b''"
    by (simp add: cstring_def)
  show ?thesis
    using c by (simp add: load_file_scan_eq a)
qed

text \<open>
  Claim C3 is not what the code does. On the one-byte buffer \<open>#\<close> the scan of
  \<^verbatim>\<open>tte.cpp\<close> prints the diagnostic and returns 1, and the scan of \<^verbatim>\<open>load_file\<close>,
  which prints the diagnostic without stepping over the byte, never returns.
\<close>

theorem unparseable_byte_stops_scan:
  "tte_scan ''#'' = ([Span Whitespace 0 [], Diag CHR ''#''], Returned1) \<and>
   load_file_scan ''#'' = None"
proof -
  have a: "tte_scan ''#'' = ([Span Whitespace 0 [], Diag CHR ''#''], Returned1)"
    by code_simp
  show ?thesis
    by (simp add: load_file_scan_eq a)
qed

section \<open>Claims about the input loops\<close>

text \<open>
  Claim C10. No key handler of either program assigns to the buffer: whatever
  chunks the input loop reads, and however it ends (the loop exits, an assertion
  fails, or the input runs out), the buffer of the later variant (contents,
  \<open>used\<close>, \<open>size\<close>) and the buffer and \<open>buffer_size\<close> of \<^verbatim>\<open>tte.cpp\<close> are
  what they were when the loop was entered.
\<close>

theorem input_loop_keeps_buffer:
  "buffer (snd (ed_loop s chs)) = buffer s \<and>
   t_buffer (snd (tte_loop t chs)) = t_buffer t \<and>
   t_buffer_size (snd (tte_loop t chs)) = t_buffer_size t"
  using ed_loop_frame[of s chs] tte_loop_frame[of t chs] by simp

text \<open>
  Claim C8, as amended. In the later variant a one-byte chunk holding ESC or
  Ctrl-Q clears \<open>keep_running\<close>, and the loop exits without reading another
  chunk. In \<^verbatim>\<open>tte.cpp\<close> only ESC does so: Ctrl-Q falls to the \<^verbatim>\<open>default\<close> case of the
  switch, is echoed, and the loop goes on.
\<close>

theorem quit_keys:
  assumes "c = CHR 0x1B \<or> c = CHR 0x11"
  shows "ed_key s (Bytes [c]) = Inr (s\<lparr>keep_running := False\<rparr>) \<and>
         fst (ed_loop s (Bytes [c] # chs)) = LoopExit \<and>
         tte_key t (Bytes [CHR 0x1B]) = Inr (t\<lparr>t_keep_running := False\<rparr>) \<and>
         fst (tte_loop t (Bytes [CHR 0x1B] # chs)) = LoopExit \<and>
         tte_key t (Bytes [CHR 0x11]) = Inr (t\<lparr>t_trace := t_trace t @ [Out [CHR 0x11]]\<rparr>)"
proof -
  have a: "ed_key s (Bytes [c]) = Inr (s\<lparr>keep_running := False\<rparr>)"
    using assms by (auto simp: ed_key_def)
  have b: "tte_key t (Bytes [CHR 0x1B]) = Inr (t\<lparr>t_keep_running := False\<rparr>)"
    by (simp add: tte_key_def)
  have c: "tte_key t (Bytes [CHR 0x11]) = Inr (t\<lparr>t_trace := t_trace t @ [Out [CHR 0x11]]\<rparr>)"
    by (simp add: tte_key_def)
  have d: "fst (ed_loop s (Bytes [c] # chs)) = LoopExit"
    by (cases chs) (simp_all add: a)
  have e: "fst (tte_loop t (Bytes [CHR 0x1B] # chs)) = LoopExit"
    by (cases chs) (simp_all add: b)
  show ?thesis using a b c d e by simp
qed

theorem quit_keys_witness:
  "ed_key \<lparr>buffer = \<lparr>data = [], used = 0, size_b = 4096\<rparr>, cur_x = 0, cur_y = 0,
           keep_running = True, trace = []\<rparr> (Bytes [CHR 0x11]) =
     Inr \<lparr>buffer = \<lparr>data = [], used = 0, size_b = 4096\<rparr>, cur_x = 0, cur_y = 0,
          keep_running = False, trace = []\<rparr> \<and>
   fst (ed_loop \<lparr>buffer = \<lparr>data = [], used = 0, size_b = 4096\<rparr>, cur_x = 0, cur_y = 0,
                 keep_running = True, trace = []\<rparr> [Bytes [CHR 0x11], Bytes ''a'']) = LoopExit"
  using quit_keys[of "CHR 0x11"
      "\<lparr>buffer = \<lparr>data = [], used = 0, size_b = 4096\<rparr>, cur_x = 0, cur_y = 0,
        keep_running = True, trace = []\<rparr>" "[Bytes ''a'']"]
  by simp

text \<open>
  The counterexample to C8 as written: \<^verbatim>\<open>tte.cpp\<close> reads Ctrl-Q and goes on; with no
  further input the loop is blocked in \<^verbatim>\<open>read\<close> with \<open>keep_running\<close> still set.
\<close>

theorem quit_keys_counterexample:
  "tte_loop \<lparr>t_buffer = [CHR 0x00], t_buffer_size = 4096, buffer_line_pos = 0, buffer_pos = 0,
             t_keep_running = True, t_trace = []\<rparr> [Bytes [CHR 0x11]] =
     (BlockedInRead,
      \<lparr>t_buffer = [CHR 0x00], t_buffer_size = 4096, buffer_line_pos = 0, buffer_pos = 0,
       t_keep_running = True, t_trace = [Out [CHR 0x11]]\<rparr>)"
  by (simp add: tte_key_def)

text \<open>
  Claim C4, as amended. A chunk that the decoder of the specification calls
  Unrecognized aborts the process through a failed assertion when it is a three-byte
  sequence starting ESC \<open>[\<close> (both programs), and in \<^verbatim>\<open>tte.cpp\<close> whenever its length
  is not 1. Every other such chunk leaves the loop running: the later variant ignores
  it and reads the next chunk, \<^verbatim>\<open>tte.cpp\<close> echoes the byte (byte 1 it ignores).
\<close>

theorem unrecognized_chunk:
  assumes "spec_decode input = Unrecognized input"
  shows "ed_key s (Bytes input) =
           (if is_csi3 input then Inl (AssertionFailed ''Unhandled escape key input'')
            else Inr s) \<and>
         (keep_running s \<longrightarrow>
            ed_loop s (Bytes input # chs) =
              (if is_csi3 input
               then (Aborted (AssertionFailed ''Unhandled escape key input''), s)
               else ed_loop s chs)) \<and>
         tte_key t (Bytes input) =
           (if length input = 1
            then (if input ! 0 = CHR 0x01 then Inr t
                  else Inr (t\<lparr>t_trace := t_trace t @ [Out [input ! 0]]\<rparr>))
            else if is_csi3 input then Inl (AssertionFailed ''Unhandled escape key input'')
            else Inl (AssertionFailed ''Unhandled key input''))"
  using unrecognized_ed_key[OF assms, of s] unrecognized_tte_key[OF assms, of t] by simp

theorem unrecognized_chunk_witness:
  "spec_decode [CHR 0x02] = Unrecognized [CHR 0x02] \<and>
   ed_key (ed_start [CHR 0x00]) (Bytes [CHR 0x02]) = Inr (ed_start [CHR 0x00]) \<and>
   ed_loop (ed_start [CHR 0x00]) [Bytes [CHR 0x02]] = (BlockedInRead, ed_start [CHR 0x00]) \<and>
   tte_key (tte_start [CHR 0x00]) (Bytes [CHR 0x02]) =
     Inr ((tte_start [CHR 0x00])\<lparr>t_trace := [Out [CHR 0x02]]\<rparr>)"
proof -
  have h: "spec_decode [CHR 0x02] = Unrecognized [CHR 0x02]"
    by (simp add: spec_decode_def)
  show ?thesis
    using h unrecognized_chunk[OF h, of "ed_start [CHR 0x00]" "[]" "tte_start [CHR 0x00]"]
    by (simp add: is_csi3_def ed_start_def tte_start_def)
qed

text \<open>
  The counterexample to C4 as written: ESC \<open>[\<close> \<open>Z\<close> is Unrecognized, and both
  loops end in the failed assertion without reading the chunk that follows.
\<close>

theorem unrecognized_chunk_counterexample:
  "spec_decode [CHR 0x1B, CHR ''['', CHR ''Z''] = Unrecognized [CHR 0x1B, CHR ''['', CHR ''Z''] \<and>
   ed_loop (ed_start [CHR 0x00]) [Bytes [CHR 0x1B, CHR ''['', CHR ''Z''], Bytes ''a''] =
     (Aborted (AssertionFailed ''Unhandled escape key input''), ed_start [CHR 0x00]) \<and>
   tte_loop (tte_start [CHR 0x00]) [Bytes [CHR 0x1B, CHR ''['', CHR ''Z''], Bytes ''a''] =
     (Aborted (AssertionFailed ''Unhandled escape key input''), tte_start [CHR 0x00])"
  by (simp add: spec_decode_def ed_key_def ed_arrow_def tte_key_def tte_arrow_def
      ed_start_def tte_start_def)




text \<open>
  Claim C7, as amended. In \<^verbatim>\<open>tte.cpp\<close>, with the column no greater than the offset,
  Left at offset 0 changes nothing, and Right changes nothing when the byte under
  the cursor is the terminating NUL or a newline. In the later variant Left changes
  nothing at \<open>x = 0\<close>, but Right has no test at all: it always adds one to \<open>x\<close> and
  leaves \<open>y\<close> alone.
\<close>

theorem left_right_at_edges:
  "(buffer_line_pos t \<le> buffer_pos t \<and> buffer_pos t = 0 \<longrightarrow>
      tte_key t (arrow CHR ''D'') = Inr t) \<and>
   (byte_at (t_buffer t) (buffer_pos t) = CHR 0x00 \<or>
    byte_at (t_buffer t) (buffer_pos t) = CHR 0x0A \<longrightarrow>
      tte_key t (arrow CHR ''C'') = Inr t) \<and>
   (cur_x s = 0 \<longrightarrow> ed_key s (arrow CHR ''D'') = Inr s) \<and>
   ed_key s (arrow CHR ''C'') =
     Inr (s\<lparr>cur_x := cur_x s + 1, trace := trace s @ [Out (esc ''[C'')]\<rparr>)"
  by (auto simp: arrow_def tte_key_def tte_arrow_def ed_key_def ed_arrow_def)

theorem left_right_at_edges_witness:
  "tte_key (tte_start [CHR 0x00]) (arrow CHR ''D'') = Inr (tte_start [CHR 0x00]) \<and>
   tte_key (tte_start [CHR 0x00]) (arrow CHR ''C'') = Inr (tte_start [CHR 0x00]) \<and>
   tte_key ((tte_start (''ab'' @ [CHR 0x0A] @ ''c''))\<lparr>buffer_pos := 2, buffer_line_pos := 2\<rparr>)
       (arrow CHR ''C'') =
     Inr ((tte_start (''ab'' @ [CHR 0x0A] @ ''c''))\<lparr>buffer_pos := 2, buffer_line_pos := 2\<rparr>) \<and>
   ed_key (ed_start [CHR 0x00]) (arrow CHR ''D'') = Inr (ed_start [CHR 0x00])"
  using left_right_at_edges[of "tte_start [CHR 0x00]" "ed_start [CHR 0x00]"]
    left_right_at_edges[of
      "(tte_start (''ab'' @ [CHR 0x0A] @ ''c''))\<lparr>buffer_pos := 2, buffer_line_pos := 2\<rparr>"
      "ed_start [CHR 0x00]"]
  by (simp add: tte_start_def ed_start_def byte_at_def)

text \<open>
  The counterexample to C7 as written: in the later variant, on an empty buffer with
  the cursor at offset 0, Right moves the column to 1, and the Left that follows, still
  at offset 0, moves it back to 0.
\<close>

theorem left_right_at_edges_counterexample:
  "ed_loop (ed_start [CHR 0x00]) [arrow CHR ''C''] =
     (BlockedInRead, (ed_start [CHR 0x00])\<lparr>cur_x := 1, trace := [Out (esc ''[C'')]\<rparr>) \<and>
   ed_loop ((ed_start [CHR 0x00])\<lparr>cur_x := 1\<rparr>) [arrow CHR ''D''] =
     (BlockedInRead, (ed_start [CHR 0x00])\<lparr>cur_x := 0, trace := [Out (esc ''[D'')]\<rparr>)"
  by (simp add: ed_start_def arrow_def ed_key_def ed_arrow_def)

text \<open>
  Claim C2, as amended. The buffer has a line of length \<open>n0\<close> starting at offset
  \<open>s0\<close> and ended by a newline, and after it a line of length \<open>n1\<close>. The
  cursor is at an offset within the first line, with a column greater than \<open>n1\<close>.
  Then Down puts the cursor at column \<open>n1\<close>, the end of the shorter line. The Up
  that follows clamps once more, now to the length of the line it returns to: the
  column becomes the smaller of \<open>n1\<close> and \<open>n0\<close>. Where the offset is the line
  start plus the column (\<open>k = col\<close>) the first line has more than \<open>n1\<close> bytes,
  so the column stays \<open>n1\<close> and does not go back to what it was before Down. Both
  programs run the same code for the two keys.
\<close>

theorem down_clamps_column_and_up_clamps_again:
  assumes "line_at buf s0 n0" and "byte_at buf (s0 + n0) = CHR 0x0A"
    and "line_at buf (s0 + n0 + 1) n1"
    and "k \<le> n0" and "n1 < col" and "length buf < size_modulus"
    and "t_buffer t = buf" and "tte_cursor t = (s0 + k, col)" and "t_keep_running t"
    and "data (buffer s) = buf" and "ed_cursor s = (s0 + k, col)" and "keep_running s"
  shows "tte_cursor (snd (tte_loop t [arrow CHR ''B''])) = (s0 + n0 + 1 + n1, n1) \<and>
         tte_cursor (snd (tte_loop t [arrow CHR ''B'', arrow CHR ''A''])) =
           (s0 + min n1 n0, min n1 n0) \<and>
         ed_cursor (snd (ed_loop s [arrow CHR ''B''])) = (s0 + n0 + 1 + n1, n1) \<and>
         ed_cursor (snd (ed_loop s [arrow CHR ''B'', arrow CHR ''A''])) =
           (s0 + min n1 n0, min n1 n0) \<and>
         (k = col \<longrightarrow>
            tte_cursor (snd (tte_loop t [arrow CHR ''B'', arrow CHR ''A''])) = (s0 + n1, n1) \<and>
            ed_cursor (snd (ed_loop s [arrow CHR ''B'', arrow CHR ''A''])) = (s0 + n1, n1))"
proof -
  have a: "tte_cursor (snd (tte_loop t [arrow CHR ''B''])) = (s0 + n0 + 1 + n1, n1) \<and>
           tte_cursor (snd (tte_loop t [arrow CHR ''B'', arrow CHR ''A''])) =
             (s0 + min n1 n0, min n1 n0)"
    using tte_down_up[OF assms(1-9)] .
  have b: "ed_cursor (snd (ed_loop s [arrow CHR ''B''])) = (s0 + n0 + 1 + n1, n1) \<and>
           ed_cursor (snd (ed_loop s [arrow CHR ''B'', arrow CHR ''A''])) =
             (s0 + min n1 n0, min n1 n0)"
    using ed_down_up[OF assms(1-6) assms(10-12)] .
  have c: "k = col \<longrightarrow> min n1 n0 = n1"
    using assms(4,5) by simp
  show ?thesis
    using a b c by simp
qed

theorem down_clamps_column_and_up_clamps_again_witness:
  "line_at three_lines 0 5 \<and> byte_at three_lines 5 = CHR 0x0A \<and> line_at three_lines 6 2 \<and>
   tte_cursor (snd (tte_loop ((tte_start three_lines)\<lparr>buffer_pos := 5, buffer_line_pos := 5\<rparr>)
                      [arrow CHR ''B''])) = (8, 2) \<and>
   tte_cursor (snd (tte_loop ((tte_start three_lines)\<lparr>buffer_pos := 5, buffer_line_pos := 5\<rparr>)
                      [arrow CHR ''B'', arrow CHR ''A''])) = (2, 2) \<and>
   ed_cursor (snd (ed_loop ((ed_start three_lines)\<lparr>cur_y := 5, cur_x := 5\<rparr>)
                     [arrow CHR ''B''])) = (8, 2) \<and>
   ed_cursor (snd (ed_loop ((ed_start three_lines)\<lparr>cur_y := 5, cur_x := 5\<rparr>)
                     [arrow CHR ''B'', arrow CHR ''A''])) = (2, 2)"
proof -
  have a: "line_at three_lines 0 5"
    by (simp add: line_at_def slice_def byte_at_def three_lines_def)
  have b: "byte_at three_lines (0 + 5) = CHR 0x0A"
    by (simp add: byte_at_def three_lines_def)
  have c: "line_at three_lines (0 + 5 + 1) 2"
    by (simp add: line_at_def slice_def byte_at_def three_lines_def)
  have d: "length three_lines < size_modulus"
    by (simp add: three_lines_def size_modulus_def)
  show ?thesis
    using a b c
      down_clamps_column_and_up_clamps_again[OF a b c _ _ d, of 5 5
        "(tte_start three_lines)\<lparr>buffer_pos := 5, buffer_line_pos := 5\<rparr>"
        "(ed_start three_lines)\<lparr>cur_y := 5, cur_x := 5\<rparr>"]
    by (simp add: tte_start_def ed_start_def tte_cursor_def ed_cursor_def)
qed

text \<open>
  The counterexample to C2 as written: the later variant on the buffer holding the
  lines \<open>a\<close> and \<open>bc\<close>. Five Right keys take the column to 5 and leave the offset
  at 0. Down lands on the line of length 2, shorter than the column, and clamps the
  column to 2; the Up that follows lands on the line of length 1 and leaves the column
  at 1, not 2.
\<close>

theorem down_clamps_column_and_up_clamps_again_counterexample:
  "ed_cursor (snd (ed_loop (ed_start two_lines)
      [arrow CHR ''C'', arrow CHR ''C'', arrow CHR ''C'', arrow CHR ''C'', arrow CHR ''C''])) =
     (0, 5) \<and>
   ed_cursor (snd (ed_loop (ed_start two_lines)
      [arrow CHR ''C'', arrow CHR ''C'', arrow CHR ''C'', arrow CHR ''C'', arrow CHR ''C'',
       arrow CHR ''B''])) = (4, 2) \<and>
   ed_cursor (snd (ed_loop (ed_start two_lines)
      [arrow CHR ''C'', arrow CHR ''C'', arrow CHR ''C'', arrow CHR ''C'', arrow CHR ''C'',
       arrow CHR ''B'', arrow CHR ''A''])) = (1, 1)"
  by code_simp

section \<open>Claims about the whole programs\<close>



text \<open>
  Claim C5, as amended. In the later variant, when the program exits with status 0
  (the loop ended through a Quit key), \<^verbatim>\<open>destroy_screen\<close> has run exactly once and
  last: the trace ends with the call that sets the original attributes and the writes
  that restore the screen and the cursor, raw mode was entered before, and nothing
  earlier in the trace restores attributes or screen. When an assertion fails,
  anywhere, nothing has been restored. \<^verbatim>\<open>tte.cpp\<close>, whose restoring code is
  commented out, never restores anything, however it ends.
\<close>

theorem restore_on_exit_paths:
  "(fst (ed_main e) = Exit 0 \<longrightarrow>
      (\<exists>tr. snd (ed_main e) =
               tr @ [TcSetAttr OriginalMode, Out restore_screen, Out (esc ''8'')] \<and>
             TcSetAttr RawMode \<in> set tr \<and> no_restore tr)) \<and>
   (fst (ed_main e) = Abort f \<longrightarrow> no_restore (snd (ed_main e))) \<and>
   no_restore (snd (tte_main e))"
  using ed_main_exit[of e] ed_main_abort[of e f] tte_main_no_restore[of e] by blast

theorem restore_on_exit_paths_witness:
  "fst (ed_main quit_env) = Exit 0 \<and>
   (\<exists>tr. snd (ed_main quit_env) =
            tr @ [TcSetAttr OriginalMode, Out restore_screen, Out (esc ''8'')] \<and>
          TcSetAttr RawMode \<in> set tr \<and> no_restore tr) \<and>
   fst (ed_main (quit_env\<lparr>stdin_chunks := [ReadError]\<rparr>)) =
     Abort (AssertionFailed ''bytes_read != -1'') \<and>
   no_restore (snd (ed_main (quit_env\<lparr>stdin_chunks := [ReadError]\<rparr>)))"
proof -
  have a: "fst (ed_main quit_env) = Exit 0"
    by (simp add: quit_env_def ed_main_def init_def ed_run_def init_screen_def new_buffer_def
        ed_key_def destroy_screen_def)
  have b: "fst (ed_main (quit_env\<lparr>stdin_chunks := [ReadError]\<rparr>)) =
             Abort (AssertionFailed ''bytes_read != -1'')"
    by (simp add: quit_env_def ed_main_def init_def ed_run_def init_screen_def new_buffer_def
        ed_key_def loop_outcome_def)
  show ?thesis
    using a b restore_on_exit_paths[of quit_env]
      restore_on_exit_paths[of "quit_env\<lparr>stdin_chunks := [ReadError]\<rparr>"
        "AssertionFailed ''bytes_read != -1''"]
    by simp
qed

text \<open>
  The counterexample to C5 as written: with \<^verbatim>\<open>TERM=xterm\<close> and the unhandled
  sequence ESC \<open>[\<close> \<open>Z\<close> as input, the later variant enters raw mode and dies in
  the assertion with nothing restored; \<^verbatim>\<open>tte.cpp\<close>, given ESC, enters raw mode and
  exits with status 0 with nothing restored.
\<close>

theorem restore_on_exit_paths_counterexample:
  "ed_main (quit_env\<lparr>stdin_chunks := [arrow CHR ''Z'']\<rparr>) =
     (Abort (AssertionFailed ''Unhandled escape key input''),
      [Out (esc ''7''), Out save_screen, TcGetAttr, TcSetAttr RawMode, Out (esc ''[H'')]) \<and>
   tte_main quit_env =
     (Exit 0,
      [Out save_screen, Span Whitespace 0 [], TcGetAttr, TcSetAttr RawMode, Out (esc ''[H'')])"
proof -
  have s: "tte_scan [CHR 0x00] = ([Span Whitespace 0 []], ReachedNul)"
    by code_simp
  show ?thesis
    by (simp add: quit_env_def ed_main_def tte_main_def init_def ed_run_def init_screen_def
        new_buffer_def ed_key_def ed_arrow_def tte_key_def loop_outcome_def arrow_def s)
qed

end
